theory Spec2Isabelle
  imports Complex_Main "HOL-Library.Sublist" "HOL-Library.Log_Nat"
begin

section \<open>Python values\<close>

text \<open>
  A Python \<open>str\<close> is a sequence of Unicode code points, so a string is a list of
  code points (natural numbers), not of bytes. ASCII literals are written through
  \<open>ascii\<close>; the few non-ASCII characters of \<open>app.py\<close> are given by their code points.
\<close>

type_synonym pychar = nat
type_synonym pystr = "pychar list"

definition ascii :: "string \<Rightarrow> pystr" where
  "ascii s = map of_char s"

text \<open>
  The Unicode database of the Python runtime is not part of the repository. The behaviour
  on ASCII is written out below; for code points from 128 on, the tables are a parameter:
  \<^item> \<open>u_decimal\<close>: the digit value of a decimal digit (category Nd; what \<open>\d\<close> matches
    and \<open>float\<close> accepts);
  \<^item> \<open>u_alnum\<close>: the alphabetic and numeric characters (\<open>str.isalnum\<close>, behind \<open>\w\<close> and \<open>\b\<close>);
  \<^item> \<open>u_space\<close>: the whitespace characters (what \<open>\s\<close> matches);
  \<^item> \<open>u_lower\<close>: the simple lower-case mapping (used by \<open>re.IGNORECASE\<close>);
  \<^item> \<open>u_upper\<close>: the full upper-case mapping (used by \<open>str.upper\<close>; one code point may
    become several).
\<close>

record unicode_tables =
  u_decimal :: "pychar \<Rightarrow> nat option"
  u_alnum :: "pychar \<Rightarrow> bool"
  u_space :: "pychar \<Rightarrow> bool"
  u_lower :: "pychar \<Rightarrow> pychar"
  u_upper :: "pychar \<Rightarrow> pystr"

definition is_ascii_digit :: "pychar \<Rightarrow> bool" where
  "is_ascii_digit c = (48 \<le> c \<and> c \<le> 57)"

definition is_ascii_upper :: "pychar \<Rightarrow> bool" where
  "is_ascii_upper c = (65 \<le> c \<and> c \<le> 90)"

definition is_ascii_lower :: "pychar \<Rightarrow> bool" where
  "is_ascii_lower c = (97 \<le> c \<and> c \<le> 122)"

text \<open>\<open>str.upper\<close>: every code point is replaced by its full upper-case mapping.\<close>

definition upper_char :: "unicode_tables \<Rightarrow> pychar \<Rightarrow> pystr" where
  "upper_char U c =
     (if c < 128 then (if is_ascii_lower c then [c - 32] else [c]) else u_upper U c)"

definition py_upper :: "unicode_tables \<Rightarrow> pystr \<Rightarrow> pystr" where
  "py_upper U s = concat (map (upper_char U) s)"

subsection \<open>Floats and the \<open>.2f\<close> format\<close>

text \<open>
  A finite Python float is a binary fraction, hence a rational number; the amounts of the
  program (the result of \<open>float\<close> on a matched number, the value of the form's number
  field) are finite. \<open>format(x, '.2f')\<close> rounds the exact value of \<open>x\<close> to two decimals,
  ties to even, and prints the integer part, a dot and two digits.
\<close>

definition round_half_even :: "rat \<Rightarrow> int" where
  "round_half_even x =
     (let f = \<lfloor>x\<rfloor>; d = x - of_int f
      in if d < 1 / 2 then f
         else if 1 / 2 < d then f + 1
         else if even f then f else f + 1)"

function show_nat :: "nat \<Rightarrow> pystr" where
  "show_nat n = (if n < 10 then [48 + n] else show_nat (n div 10) @ [48 + n mod 10])"
  by pat_completeness auto
termination
  by (relation "measure id") auto

declare show_nat.simps [simp del]

definition format_2f :: "rat \<Rightarrow> pystr" where
  "format_2f x =
     (let n = nat (round_half_even (\<bar>x\<bar> * 100))
      in (if x < 0 then ascii ''-'' else []) @
         show_nat (n div 100) @ ascii ''.'' @ [48 + n div 10 mod 10, 48 + n mod 10])"

section \<open>The QR Platba encoder\<close>

text \<open>
  \<open>generate_qr_platba(iban, amount, currency, vs, msg)\<close> of \<open>app.py\<close>: the string is
  built by appending one segment after the other; an empty string is false in a
  Python condition.
\<close>

definition generate_qr_platba ::
  "unicode_tables \<Rightarrow> pystr \<Rightarrow> rat \<Rightarrow> pystr \<Rightarrow> pystr \<Rightarrow> pystr \<Rightarrow> pystr" where
  "generate_qr_platba U iban amount currency vs msg =
     (let qr_string = ascii ''SPD*1.0*ACC:'' @ iban @ ascii ''*'';
          qr_string = (if 0 < amount
                       then qr_string @ ascii ''AM:'' @ format_2f amount @ ascii ''*''
                       else qr_string);
          qr_string = (if currency \<noteq> []
                       then qr_string @ ascii ''CC:'' @ currency @ ascii ''*''
                       else qr_string);
          qr_string = (if msg \<noteq> []
                       then qr_string @ ascii ''MSG:'' @ py_upper U msg @ ascii ''*''
                       else qr_string);
          qr_string = (if vs \<noteq> []
                       then qr_string @ ascii ''X-VS:'' @ vs @ ascii ''*''
                       else qr_string)
      in qr_string)"

subsection \<open>\<open>float\<close> of a decimal string\<close>

text \<open>
  \<open>float(s)\<close> returns the double nearest to the decimal number that \<open>s\<close> denotes, ties
  to even: 53 significant bits. \<open>binary64\<close> rounds a rational to 53 significant bits; it
  leaves out overflow to infinity and the subnormal range, which no number written with at
  most ten integer digits and two decimals reaches.
\<close>

definition floor_log2 :: "rat \<Rightarrow> int" where
  "floor_log2 q =
     (let (a, b) = quotient_of q; e = bitlen a - bitlen b
      in if 2 powi e \<le> q then e else e - 1)"

definition binary64 :: "rat \<Rightarrow> rat" where
  "binary64 q =
     (if q = 0 then 0
      else let e = floor_log2 \<bar>q\<bar> - 52
           in of_int (round_half_even (q / 2 powi e)) * 2 powi e)"

datatype error = ValueError | AttributeError

definition digit_value :: "unicode_tables \<Rightarrow> pychar \<Rightarrow> nat option" where
  "digit_value U c =
     (if c < 128 then (if is_ascii_digit c then Some (c - 48) else None) else u_decimal U c)"

fun decimal_of :: "unicode_tables \<Rightarrow> pystr \<Rightarrow> nat \<Rightarrow> nat option" where
  "decimal_of U [] acc = Some acc"
| "decimal_of U (c # cs) acc =
     (case digit_value U c of None \<Rightarrow> None | Some d \<Rightarrow> decimal_of U cs (10 * acc + d))"

text \<open>
  \<open>float\<close> on the strings of the form digits, dot, digits (the digits of any script).
  Python's \<open>float\<close> accepts more (signs, exponents, \<open>inf\<close>, \<open>nan\<close>, underscores, blanks
  around the number, a missing integer or fractional part); \<open>parse_text\<close> never passes
  such a string, and here it counts with the malformed ones.
\<close>

definition py_float :: "unicode_tables \<Rightarrow> pystr \<Rightarrow> error + rat" where
  "py_float U s =
     (let ip = takeWhile (\<lambda>c. c \<noteq> 46) s; fp = drop (Suc (length ip)) s
      in if ip = [] \<or> fp = [] then Inl ValueError
         else case (decimal_of U ip 0, decimal_of U fp 0) of
                (Some i, Some f) \<Rightarrow> Inr (binary64 (of_nat i + of_nat f / 10 ^ length fp))
              | _ \<Rightarrow> Inl ValueError)"

text \<open>\<open>s.replace(old, new)\<close> for a one-character \<open>old\<close>.\<close>

definition replace_char :: "pychar \<Rightarrow> pystr \<Rightarrow> pystr \<Rightarrow> pystr" where
  "replace_char old new s = concat (map (\<lambda>c. if c = old then new else [c]) s)"

section \<open>Regular expressions\<close>

subsection \<open>Character classes of \<open>re\<close> on \<open>str\<close> patterns\<close>

definition is_digit :: "unicode_tables \<Rightarrow> pychar \<Rightarrow> bool" where
  "is_digit U c = (digit_value U c \<noteq> None)"

definition is_space :: "unicode_tables \<Rightarrow> pychar \<Rightarrow> bool" where
  "is_space U c =
     (if c < 128 then (9 \<le> c \<and> c \<le> 13) \<or> (28 \<le> c \<and> c \<le> 32) else u_space U c)"

definition is_word :: "unicode_tables \<Rightarrow> pychar \<Rightarrow> bool" where
  "is_word U c =
     (if c < 128 then is_ascii_digit c \<or> is_ascii_upper c \<or> is_ascii_lower c \<or> c = 95
      else u_alnum U c \<or> u_decimal U c \<noteq> None)"

text \<open>
  \<open>re.IGNORECASE\<close>. The compiler replaces a cased literal of the pattern by its lower
  case \<open>lo\<close>, and the matcher accepts a character \<open>x\<close> of the text when the lower case of
  \<open>x\<close> is \<open>lo\<close> or one of the characters that share the upper case of \<open>lo\<close>
  (\<open>sre_compile._equivalences\<close>: dotless i with i, long s with s; its other rows hold no
  letter of the patterns below). An uncased literal matches itself only. The pattern side
  is fixed: among the characters of the patterns of \<open>parse_text\<close> the cased ones are the
  ASCII letters, U+010D (c with caron) and U+00FD (y with acute), the last two being
  lower case themselves; the euro sign U+20AC, the blank and the punctuation are uncased.
\<close>

definition sre_lower :: "unicode_tables \<Rightarrow> pychar \<Rightarrow> pychar" where
  "sre_lower U c = (if c < 128 then (if is_ascii_upper c then c + 32 else c) else u_lower U c)"

definition ignorecase_fixes :: "pychar \<Rightarrow> pychar list" where
  "ignorecase_fixes lo =
     (if lo = 105 then [305] else if lo = 305 then [105]
      else if lo = 115 then [383] else if lo = 383 then [115] else [])"

definition pattern_cased :: "pychar \<Rightarrow> bool" where
  "pattern_cased c = (is_ascii_upper c \<or> is_ascii_lower c \<or> c = 269 \<or> c = 253)"

definition pattern_lower :: "pychar \<Rightarrow> pychar" where
  "pattern_lower c = (if is_ascii_upper c then c + 32 else c)"

definition lit_ic :: "unicode_tables \<Rightarrow> pychar \<Rightarrow> pychar \<Rightarrow> bool" where
  "lit_ic U c x =
     (if pattern_cased c
      then sre_lower U x \<in> set (pattern_lower c # ignorecase_fixes (pattern_lower c))
      else x = c)"

subsection \<open>A backtracking matcher\<close>

text \<open>
  The matcher of \<open>re\<close> explores the alternatives of a pattern in a fixed order (the left
  branch of \<open>|\<close> first, one more repetition before fewer) and takes the first way to match.
  A pattern is therefore a function from a state to the list of the states in which a
  match can end, in the order in which backtracking reaches them. A state holds the text
  before the position (reversed), the text from the position on, and the groups captured
  so far.
\<close>

type_synonym mstate = "pystr \<times> pystr \<times> (nat \<times> pystr) list"
type_synonym re = "mstate \<Rightarrow> mstate list"

definition re_eps :: re where
  "re_eps = (\<lambda>st. [st])"

definition re_chr :: "(pychar \<Rightarrow> bool) \<Rightarrow> re" where
  "re_chr P = (\<lambda>(p, r, g). case r of [] \<Rightarrow> [] | c # cs \<Rightarrow> if P c then [(c # p, cs, g)] else [])"

definition re_seq :: "re \<Rightarrow> re \<Rightarrow> re" where
  "re_seq a b = (\<lambda>st. concat (map b (a st)))"

definition re_alt :: "re \<Rightarrow> re \<Rightarrow> re" where
  "re_alt a b = (\<lambda>st. a st @ b st)"

text \<open>The greedy \<open>a?\<close>, \<open>a{m,n}\<close> and \<open>a*\<close> (for an \<open>a\<close> that consumes a character).\<close>

definition re_opt :: "re \<Rightarrow> re" where
  "re_opt a = (\<lambda>st. a st @ [st])"

fun re_rep :: "nat \<Rightarrow> nat \<Rightarrow> re \<Rightarrow> re" where
  "re_rep m 0 a st = (if m = 0 then [st] else [])"
| "re_rep m (Suc n) a st =
     concat (map (re_rep (m - 1) n a) (a st)) @ (if m = 0 then [st] else [])"

definition re_star :: "re \<Rightarrow> re" where
  "re_star a = (\<lambda>(p, r, g). re_rep 0 (length r) a (p, r, g))"

text \<open>A capturing group records the text that its body consumed.\<close>

definition re_group :: "nat \<Rightarrow> re \<Rightarrow> re" where
  "re_group k a =
     (\<lambda>(p, r, g). map (\<lambda>(p', r', g'). (p', r', (k, rev (take (length p' - length p) p')) # g'))
                      (a (p, r, g)))"

text \<open>\<open>\b\<close>: exactly one of the characters before and after the position is a word character.\<close>

definition re_bound :: "unicode_tables \<Rightarrow> re" where
  "re_bound U =
     (\<lambda>(p, r, g). if (p \<noteq> [] \<and> is_word U (hd p)) \<noteq> (r \<noteq> [] \<and> is_word U (hd r))
                  then [(p, r, g)] else [])"

definition re_seqs :: "re list \<Rightarrow> re" where
  "re_seqs rs = foldr re_seq rs re_eps"

definition re_alts :: "re list \<Rightarrow> re" where
  "re_alts rs = foldr re_alt rs (\<lambda>st. [])"

definition re_str :: "pystr \<Rightarrow> re" where
  "re_str s = re_seqs (map (\<lambda>c. re_chr (\<lambda>x. x = c)) s)"

definition re_str_ic :: "unicode_tables \<Rightarrow> pystr \<Rightarrow> re" where
  "re_str_ic U s = re_seqs (map (\<lambda>c. re_chr (lit_ic U c)) s)"

text \<open>
  \<open>re.search\<close> tries the start positions from left to right, the end of the text
  included, and returns the first match of the first position that has one.
\<close>

fun search_from :: "re \<Rightarrow> pystr \<Rightarrow> pystr \<Rightarrow> mstate option" where
  "search_from a p [] = (case a (p, [], []) of [] \<Rightarrow> None | st # _ \<Rightarrow> Some st)"
| "search_from a p (c # cs) =
     (case a (p, c # cs, []) of [] \<Rightarrow> search_from a (c # p) cs | st # _ \<Rightarrow> Some st)"

definition re_search :: "re \<Rightarrow> pystr \<Rightarrow> mstate option" where
  "re_search a text = search_from a [] text"

text \<open>\<open>m.group(k)\<close>; \<open>None\<close> for a group that took no part in the match.\<close>

definition group :: "mstate \<Rightarrow> nat \<Rightarrow> pystr option" where
  "group m k = (case m of (p, r, g) \<Rightarrow> map_of g k)"

section \<open>The field extractor\<close>

text \<open>The five patterns of \<open>parse_text\<close>, construct by construct.\<close>

definition digit09 :: re where
  "digit09 = re_chr is_ascii_digit"

definition iban_body :: "unicode_tables \<Rightarrow> string \<Rightarrow> re" where
  "iban_body U cc =
     re_seqs [re_str (ascii cc), re_rep 2 2 digit09,
              re_opt (re_chr (is_space U)), re_rep 4 4 digit09,
              re_opt (re_chr (is_space U)), re_rep 4 4 digit09,
              re_opt (re_chr (is_space U)), re_rep 4 4 digit09,
              re_opt (re_chr (is_space U)), re_rep 4 4 digit09,
              re_opt (re_chr (is_space U)), re_rep 4 4 digit09]"

definition iban_re :: "unicode_tables \<Rightarrow> re" where
  "iban_re U = re_group 1 (re_alt (iban_body U ''SK'') (iban_body U ''CZ''))"

definition number_re :: "unicode_tables \<Rightarrow> re" where
  "number_re U =
     re_seqs [re_rep 1 10 (re_chr (is_digit U)), re_chr (\<lambda>c. c = 44 \<or> c = 46),
              re_rep 2 2 (re_chr (is_digit U))]"

definition marker_re :: "unicode_tables \<Rightarrow> re" where
  "marker_re U =
     re_alts [re_str_ic U (ascii ''EUR''), re_str_ic U [8364],
              re_str_ic U (ascii ''K'' @ [269]), re_str_ic U (ascii ''CZK'')]"

definition amount_marker_re :: "unicode_tables \<Rightarrow> re" where
  "amount_marker_re U =
     re_seqs [re_group 1 (number_re U), re_opt (re_chr (is_space U)), re_group 2 (marker_re U)]"

definition marker_amount_re :: "unicode_tables \<Rightarrow> re" where
  "marker_amount_re U =
     re_seqs [re_group 1 (marker_re U), re_opt (re_chr (is_space U)), re_group 2 (number_re U)]"

definition label_re :: "unicode_tables \<Rightarrow> re" where
  "label_re U =
     re_alt (re_str_ic U (ascii ''VS''))
       (re_seqs [re_str_ic U (ascii ''Variabiln''),
                 re_chr (\<lambda>x. lit_ic U 121 x \<or> lit_ic U 253 x),
                 re_str_ic U (ascii '' symbol'')])"

definition vs_label_re :: "unicode_tables \<Rightarrow> re" where
  "vs_label_re U =
     re_seqs [re_group 1 (label_re U), re_opt (re_chr (\<lambda>c. c = 58)),
              re_star (re_chr (is_space U)), re_group 2 (re_rep 1 10 (re_chr (is_digit U)))]"

definition vs_plain_re :: "unicode_tables \<Rightarrow> re" where
  "vs_plain_re U =
     re_seqs [re_bound U, re_group 1 (re_rep 10 10 (re_chr (is_digit U))), re_bound U]"

text \<open>The tuple \<open>(iban, amount, currency, vs)\<close> that \<open>parse_text\<close> returns.\<close>

record fields =
  r_iban :: pystr
  r_amount :: rat
  r_currency :: pystr
  r_vs :: "pystr option"

text \<open>
  \<open>m.group(k)\<close> followed by a string operation: the operation raises \<open>AttributeError\<close>
  on \<open>None\<close>.
\<close>

definition group_str :: "mstate \<Rightarrow> nat \<Rightarrow> error + pystr" where
  "group_str m k = (case group m k of None \<Rightarrow> Inl AttributeError | Some s \<Rightarrow> Inr s)"

definition parse_iban :: "unicode_tables \<Rightarrow> pystr \<Rightarrow> error + pystr" where
  "parse_iban U text =
     (case re_search (iban_re U) text of
        None \<Rightarrow> Inr []
      | Some m \<Rightarrow> (case group_str m 1 of Inl e \<Rightarrow> Inl e
                   | Inr s \<Rightarrow> Inr (replace_char 32 [] s)))"

definition parse_amount_str :: "unicode_tables \<Rightarrow> pystr \<Rightarrow> pystr option" where
  "parse_amount_str U text =
     (case re_search (amount_marker_re U) text of
        None \<Rightarrow> (case re_search (marker_amount_re U) text of
                   Some m \<Rightarrow> group m 2
                 | None \<Rightarrow> Some [])
      | Some m \<Rightarrow> group m 1)"

definition parse_amount :: "unicode_tables \<Rightarrow> pystr \<Rightarrow> error + rat" where
  "parse_amount U text =
     (case parse_amount_str U text of
        None \<Rightarrow> Inr 0
      | Some amount_str \<Rightarrow>
          if amount_str \<noteq> [] then py_float U (replace_char 44 (ascii ''.'') amount_str)
          else Inr 0)"

definition parse_currency :: "unicode_tables \<Rightarrow> pystr \<Rightarrow> pystr \<Rightarrow> pystr" where
  "parse_currency U text iban_found =
     (if sublist (ascii ''CZK'') (py_upper U text) \<or> sublist (ascii ''K'' @ [268]) (py_upper U text)
         \<or> (iban_found \<noteq> [] \<and> prefix (ascii ''CZ'') iban_found)
      then ascii ''CZK'' else ascii ''EUR'')"

text \<open>The reference is a string or, should the group be unset, Python's \<open>None\<close>.\<close>

definition parse_vs :: "unicode_tables \<Rightarrow> pystr \<Rightarrow> pystr option" where
  "parse_vs U text =
     (let vs_found = (case re_search (vs_label_re U) text of
                        None \<Rightarrow> Some []
                      | Some m \<Rightarrow> group m 2)
      in if vs_found = None \<or> vs_found = Some []
         then (case re_search (vs_plain_re U) text of
                 None \<Rightarrow> Some []
               | Some m \<Rightarrow> group m 1)
         else vs_found)"

definition parse_text :: "unicode_tables \<Rightarrow> pystr \<Rightarrow> error + fields" where
  "parse_text U text =
     (case parse_iban U text of
        Inl e \<Rightarrow> Inl e
      | Inr iban_found \<Rightarrow>
          (case parse_amount U text of
             Inl e \<Rightarrow> Inl e
           | Inr amount_found \<Rightarrow>
               Inr \<lparr>r_iban = iban_found, r_amount = amount_found,
                    r_currency = parse_currency U text iban_found,
                    r_vs = parse_vs U text\<rparr>))"


section \<open>The payment form\<close>

text \<open>
  The body of \<open>if submitted:\<close> in \<open>app.py\<close>. The radio button returns one of its two
  options. What the code shows to the user is the list of the events below, in order; a
  call of an encoder is recorded as an event too, so that the trace tells which encoder
  ran. \<open>pay_by_square.generate\<close> is an external library: it is a parameter that returns
  the payload, or \<open>None\<close> when it raises (\<open>generate_pay_by_square\<close> catches every
  exception, reports it and returns \<open>None\<close>). Rendering the QR image is external as well
  and appears as the event \<open>St_image\<close>.
\<close>

datatype country = Slovak_invoice | Czech_invoice

datatype encoder = Pay_by_square | Qr_platba

datatype message =
    Iban_required | Iban_not_slovak | Iban_not_czech
  | Generating_pay_by_square | Generating_qr_platba
  | Pay_by_square_failed | Qr_generated | Qr_not_generated

datatype event =
    St_error message | St_warning message | St_info message | St_success message
  | St_image pystr | Call encoder

type_synonym pbs_generate = "pystr \<Rightarrow> rat \<Rightarrow> pystr \<Rightarrow> pystr \<Rightarrow> pystr \<Rightarrow> pystr option"

definition generate_pay_by_square ::
  "pbs_generate \<Rightarrow> pystr \<Rightarrow> rat \<Rightarrow> pystr \<Rightarrow> pystr \<Rightarrow> pystr \<Rightarrow> event list \<times> pystr option" where
  "generate_pay_by_square gen iban amount currency vs msg =
     (case gen iban amount currency vs msg of
        Some s \<Rightarrow> ([], Some s)
      | None \<Rightarrow> ([St_error Pay_by_square_failed], None))"

definition payment_form_submit ::
  "pbs_generate \<Rightarrow> unicode_tables \<Rightarrow> country \<Rightarrow> pystr \<Rightarrow> rat \<Rightarrow> pystr \<Rightarrow> pystr \<Rightarrow> pystr
     \<Rightarrow> event list \<times> pystr option" where
  "payment_form_submit gen U country iban amount currency vs msg =
     (if iban = [] then ([St_error Iban_required], None)
      else
        let (shown, qr_data) =
          (case country of
             Slovak_invoice \<Rightarrow>
               (let (raised, payload) = generate_pay_by_square gen iban amount currency vs msg
                in ((if \<not> prefix (ascii ''SK'') iban then [St_warning Iban_not_slovak] else []) @
                    [St_info Generating_pay_by_square, Call Pay_by_square] @ raised, payload))
           | Czech_invoice \<Rightarrow>
               ((if \<not> prefix (ascii ''CZ'') iban then [St_warning Iban_not_czech] else []) @
                [St_info Generating_qr_platba, Call Qr_platba],
                Some (generate_qr_platba U iban amount currency vs msg)))
        in (case qr_data of
              Some s \<Rightarrow>
                if s \<noteq> [] then (shown @ [St_image s, St_success Qr_generated], qr_data)
                else (shown @ [St_error Qr_not_generated], qr_data)
            | None \<Rightarrow> (shown @ [St_error Qr_not_generated], None)))"

section \<open>A sample of the Unicode tables\<close>

text \<open>
  ASCII together with the letter c with caron in its two cases (U+010C, U+010D) and the
  no-break space (U+00A0); every other code point counts as a caseless symbol. The table
  instantiates the parameter where a property is run on a concrete input.
\<close>

definition sample_tables :: unicode_tables where
  "sample_tables =
     \<lparr>u_decimal = (\<lambda>c. None), u_alnum = (\<lambda>c. c = 268 \<or> c = 269), u_space = (\<lambda>c. c = 160),
      u_lower = (\<lambda>c. if c = 268 then 269 else c),
      u_upper = (\<lambda>c. if c = 269 then [268] else [c])\<rparr>"

section \<open>The specification's patterns\<close>

text \<open>
  What the specification says a field looks like, written as predicates on strings and
  independent of the matcher. A number is one to ten digits, a comma or a dot, and two
  digits; a currency marker is one of \<open>EUR\<close>, the euro sign, \<open>K\<close> followed by c with
  caron, or \<open>CZK\<close>, in any case; the optional blank is at most one whitespace character.
\<close>

definition digits_word :: "unicode_tables \<Rightarrow> nat \<Rightarrow> nat \<Rightarrow> pystr \<Rightarrow> bool" where
  "digits_word U m n w = (m \<le> length w \<and> length w \<le> n \<and> list_all (is_digit U) w)"

definition number_word :: "unicode_tables \<Rightarrow> pystr \<Rightarrow> bool" where
  "number_word U w =
     (\<exists>ds sep f. w = ds @ sep # f \<and> 1 \<le> length ds \<and> length ds \<le> 10 \<and> list_all (is_digit U) ds
        \<and> (sep = 44 \<or> sep = 46) \<and> length f = 2 \<and> list_all (is_digit U) f)"

definition markers :: "pystr list" where
  "markers = [ascii ''EUR'', [8364], ascii ''K'' @ [269], ascii ''CZK'']"

definition marker_word :: "unicode_tables \<Rightarrow> pystr \<Rightarrow> bool" where
  "marker_word U w = list_ex (\<lambda>s. list_all2 (lit_ic U) s w) markers"

definition blank_word :: "unicode_tables \<Rightarrow> pystr \<Rightarrow> bool" where
  "blank_word U w = (length w \<le> 1 \<and> list_all (is_space U) w)"

text \<open>
  An amount followed by a marker, and a marker followed by an amount, at the position
  after \<open>pre\<close> in the text.
\<close>

definition amount_before_marker :: "unicode_tables \<Rightarrow> pystr \<Rightarrow> pystr \<Rightarrow> pystr \<Rightarrow> bool" where
  "amount_before_marker U text pre num =
     (\<exists>ws mk post. text = pre @ num @ ws @ mk @ post \<and> number_word U num \<and> blank_word U ws
        \<and> marker_word U mk)"

definition marker_before_amount :: "unicode_tables \<Rightarrow> pystr \<Rightarrow> pystr \<Rightarrow> pystr \<Rightarrow> bool" where
  "marker_before_amount U text pre num =
     (\<exists>mk ws post. text = pre @ mk @ ws @ num @ post \<and> marker_word U mk \<and> blank_word U ws
        \<and> number_word U num)"

text \<open>
  The amount of a text: the number of the leftmost amount followed by a marker if there is
  one, else the number of the leftmost marker followed by an amount if there is one, its
  separator replaced by a dot and read by \<open>float\<close>; else zero.
\<close>

definition amount_spec :: "unicode_tables \<Rightarrow> pystr \<Rightarrow> rat \<Rightarrow> bool" where
  "amount_spec U text x =
     (if \<exists>pre num. amount_before_marker U text pre num
      then \<exists>pre num. amount_before_marker U text pre num \<and>
             (\<forall>pre' num'. amount_before_marker U text pre' num' \<longrightarrow> length pre \<le> length pre') \<and>
             py_float U (replace_char 44 (ascii ''.'') num) = Inr x
      else if \<exists>pre num. marker_before_amount U text pre num
      then \<exists>pre num. marker_before_amount U text pre num \<and>
             (\<forall>pre' num'. marker_before_amount U text pre' num' \<longrightarrow> length pre \<le> length pre') \<and>
             py_float U (replace_char 44 (ascii ''.'') num) = Inr x
      else x = 0)"

text \<open>
  The reference. A label is \<open>VS\<close> or \<open>Variabilny symbol\<close>, the latter with \<open>y\<close> or
  \<open>y\<close> with acute (U+00FD), in any case; it is followed by an optional colon, whitespace
  and one to ten digits. A standalone run is ten digits with no word character before or
  after.
\<close>

definition label_word :: "unicode_tables \<Rightarrow> pystr \<Rightarrow> bool" where
  "label_word U w =
     (list_all2 (lit_ic U) (ascii ''VS'') w
      \<or> list_all2 (lit_ic U) (ascii ''Variabilny symbol'') w
      \<or> list_all2 (lit_ic U) (ascii ''Variabiln'' @ [253] @ ascii '' symbol'') w)"

definition colon_word :: "pystr \<Rightarrow> bool" where
  "colon_word w = (w = [] \<or> w = [58])"

definition labelled_digits :: "unicode_tables \<Rightarrow> pystr \<Rightarrow> pystr \<Rightarrow> pystr \<Rightarrow> pystr \<Rightarrow> bool" where
  "labelled_digits U text pre ds post =
     (\<exists>lab col ws. text = pre @ lab @ col @ ws @ ds @ post \<and> label_word U lab \<and> colon_word col
        \<and> list_all (is_space U) ws \<and> digits_word U 1 10 ds)"

definition standalone_digits :: "unicode_tables \<Rightarrow> pystr \<Rightarrow> pystr \<Rightarrow> pystr \<Rightarrow> bool" where
  "standalone_digits U text pre ds =
     (\<exists>post. text = pre @ ds @ post \<and> digits_word U 10 10 ds
        \<and> (pre = [] \<or> \<not> is_word U (last pre)) \<and> (post = [] \<or> \<not> is_word U (hd post)))"

text \<open>
  The reference of a text: the digits after the leftmost label, as many as there are up to
  ten; without a labelled reference, the leftmost standalone run of ten digits; else the
  empty string.
\<close>

definition vs_spec :: "unicode_tables \<Rightarrow> pystr \<Rightarrow> pystr \<Rightarrow> bool" where
  "vs_spec U text v =
     (if \<exists>pre ds post. labelled_digits U text pre ds post
      then \<exists>pre post. labelled_digits U text pre v post \<and>
             (length v = 10 \<or> post = [] \<or> \<not> is_digit U (hd post)) \<and>
             (\<forall>pre' ds' post'. labelled_digits U text pre' ds' post' \<longrightarrow> length pre \<le> length pre')
      else if \<exists>pre ds. standalone_digits U text pre ds
      then \<exists>pre. standalone_digits U text pre v \<and>
             (\<forall>pre' ds'. standalone_digits U text pre' ds' \<longrightarrow> length pre \<le> length pre')
      else v = [])"

text \<open>
  The account identifier: \<open>SK\<close> or \<open>CZ\<close>, two digits and five groups of four digits,
  each group after an optional blank.
\<close>

fun groups_word :: "unicode_tables \<Rightarrow> nat \<Rightarrow> pystr \<Rightarrow> bool" where
  "groups_word U 0 w = (w = [])"
| "groups_word U (Suc n) w =
     (\<exists>s q v. w = s @ q @ v \<and> blank_word U s \<and> length q = 4 \<and> list_all is_ascii_digit q
        \<and> groups_word U n v)"

definition iban_word :: "unicode_tables \<Rightarrow> pystr \<Rightarrow> bool" where
  "iban_word U w =
     (\<exists>cc d v. w = cc @ d @ v \<and> (cc = ascii ''SK'' \<or> cc = ascii ''CZ'') \<and> length d = 2
        \<and> list_all is_ascii_digit d \<and> groups_word U 5 v)"

definition iban_at :: "unicode_tables \<Rightarrow> pystr \<Rightarrow> pystr \<Rightarrow> pystr \<Rightarrow> bool" where
  "iban_at U text pre w = (\<exists>post. text = pre @ w @ post \<and> iban_word U w)"

definition iban_spec :: "unicode_tables \<Rightarrow> pystr \<Rightarrow> pystr \<Rightarrow> bool" where
  "iban_spec U text s =
     (if \<exists>pre w. iban_at U text pre w
      then \<exists>pre w. iban_at U text pre w \<and>
             (\<forall>pre' w'. iban_at U text pre' w' \<longrightarrow> length pre \<le> length pre') \<and>
             s = replace_char 32 [] w
      else s = [])"

text \<open>
  The currency. A text contains a word in any case when it has a run of characters that
  are, one by one, the letters of the word in either case. The upper-case mapping of the
  runtime is a parameter; what the currency rule needs of it is that c with caron has the
  upper case U+010C and that the upper-case form of no other character beyond ASCII is
  empty or holds one of the letters C, Z, K and U+010C.
\<close>

definition same_letter :: "pychar \<Rightarrow> pychar \<Rightarrow> bool" where
  "same_letter L x = (x = L \<or> (is_ascii_upper L \<and> x = L + 32) \<or> (L = 268 \<and> x = 269))"

definition ci_contains :: "pystr \<Rightarrow> pystr \<Rightarrow> bool" where
  "ci_contains pat text = (\<exists>pre w post. text = pre @ w @ post \<and> list_all2 same_letter pat w)"

definition czk_letter :: "pychar \<Rightarrow> bool" where
  "czk_letter L = (L = 67 \<or> L = 90 \<or> L = 75 \<or> L = 268)"

definition tables_upper_ok :: "unicode_tables \<Rightarrow> bool" where
  "tables_upper_ok U =
     (u_upper U 268 = [268] \<and> u_upper U 269 = [268] \<and>
      (\<forall>c. 128 \<le> c \<and> c \<noteq> 268 \<and> c \<noteq> 269 \<longrightarrow>
           u_upper U c \<noteq> [] \<and> list_all (\<lambda>x. x \<noteq> 67 \<and> x \<noteq> 90 \<and> x \<noteq> 75 \<and> x \<noteq> 268) (u_upper U c)))"

section \<open>What a pattern matches\<close>

text \<open>
  The matcher is related to the predicates above through the set of its results:
  \<open>re_sem a R\<close> says that the matches of \<open>a\<close> from a state are exactly the ways to split
  the remaining text into a word \<open>w\<close> and a rest with \<open>R w g g'\<close>, where \<open>g\<close> and \<open>g'\<close>
  are the groups before and after; \<open>re_semc\<close> lets \<open>R\<close> see the text before and after
  the word (for \<open>\b\<close>), \<open>re_lang\<close> is the case of a pattern without groups, and
  \<open>heads a st x\<close> says that \<open>x\<close> is the first result, the one \<open>re\<close> returns.
\<close>

type_synonym groups = "(nat \<times> pystr) list"

definition re_sem :: "re \<Rightarrow> (pystr \<Rightarrow> groups \<Rightarrow> groups \<Rightarrow> bool) \<Rightarrow> bool" where
  "re_sem a R =
     (\<forall>p r g. set (a (p, r, g)) = {(rev w @ p, r', g') | w r' g'. r = w @ r' \<and> R w g g'})"

definition re_semc ::
  "re \<Rightarrow> (pystr \<Rightarrow> pystr \<Rightarrow> pystr \<Rightarrow> groups \<Rightarrow> groups \<Rightarrow> bool) \<Rightarrow> bool" where
  "re_semc a R =
     (\<forall>p r g. set (a (p, r, g)) = {(rev w @ p, r', g') | w r' g'. r = w @ r' \<and> R p w r' g g'})"

definition re_lang :: "re \<Rightarrow> (pystr \<Rightarrow> bool) \<Rightarrow> bool" where
  "re_lang a L = re_sem a (\<lambda>w g g'. L w \<and> g' = g)"

definition heads :: "re \<Rightarrow> mstate \<Rightarrow> mstate \<Rightarrow> bool" where
  "heads a st x = (\<exists>rest. a st = x # rest)"

section \<open>Properties of the matcher\<close>

lemma re_semD:
  "re_sem a R \<Longrightarrow> st' \<in> set (a (p, r, g)) \<Longrightarrow>
     \<exists>w r' g'. st' = (rev w @ p, r', g') \<and> r = w @ r' \<and> R w g g'"
  unfolding re_sem_def by blast

lemma re_semI:
  "re_sem a R \<Longrightarrow> R w g g' \<Longrightarrow> (rev w @ p, r', g') \<in> set (a (p, w @ r', g))"
  unfolding re_sem_def by blast

lemma re_sem_cong:
  "re_sem a R \<Longrightarrow> (\<And>w g g'. R w g g' = R' w g g') \<Longrightarrow> re_sem a R'"
  unfolding re_sem_def by simp

lemma re_sem_eps: "re_sem re_eps (\<lambda>w g g'. w = [] \<and> g' = g)"
  unfolding re_sem_def re_eps_def by auto

lemma re_sem_chr: "re_sem (re_chr P) (\<lambda>w g g'. \<exists>c. w = [c] \<and> P c \<and> g' = g)"
  unfolding re_sem_def re_chr_def by (auto split: list.splits)

lemma re_sem_seq:
  assumes "re_sem a R1" "re_sem b R2"
  shows "re_sem (re_seq a b) (\<lambda>w g g'. \<exists>u v gm. w = u @ v \<and> R1 u g gm \<and> R2 v gm g')"
  unfolding re_sem_def
proof (intro allI set_eqI iffI)
  fix p r g st'
  assume "st' \<in> set (re_seq a b (p, r, g))"
  then obtain st1 where s1: "st1 \<in> set (a (p, r, g))" and s2: "st' \<in> set (b st1)"
    by (auto simp: re_seq_def)
  from re_semD [OF assms(1) s1] obtain u r1 gm where
    u: "st1 = (rev u @ p, r1, gm)" "r = u @ r1" "R1 u g gm" by blast
  from re_semD [OF assms(2) s2 [unfolded u(1)]] obtain v r' g' where
    v: "st' = (rev v @ rev u @ p, r', g')" "r1 = v @ r'" "R2 v gm g'" by blast
  from u v have "st' = (rev (u @ v) @ p, r', g')" "r = (u @ v) @ r'"
    by simp_all
  with u(3) v(3) show "st' \<in> {(rev w @ p, r', g') | w r' g'. r = w @ r' \<and>
      (\<exists>u v gm. w = u @ v \<and> R1 u g gm \<and> R2 v gm g')}"
    by blast
next
  fix p r g st'
  assume "st' \<in> {(rev w @ p, r', g') | w r' g'. r = w @ r' \<and>
      (\<exists>u v gm. w = u @ v \<and> R1 u g gm \<and> R2 v gm g')}"
  then obtain u v gm r' g' where
    st: "st' = (rev (u @ v) @ p, r', g')" "r = (u @ v) @ r'" "R1 u g gm" "R2 v gm g'"
    by blast
  have "(rev u @ p, v @ r', gm) \<in> set (a (p, u @ v @ r', g))"
    using re_semI [OF assms(1) st(3)] by simp
  moreover have "(rev v @ rev u @ p, r', g') \<in> set (b (rev u @ p, v @ r', gm))"
    using re_semI [OF assms(2) st(4)] by simp
  ultimately show "st' \<in> set (re_seq a b (p, r, g))"
    using st(1,2) by (auto simp: re_seq_def)
qed

lemma re_sem_alt:
  assumes "re_sem a R1" "re_sem b R2"
  shows "re_sem (re_alt a b) (\<lambda>w g g'. R1 w g g' \<or> R2 w g g')"
  using assms unfolding re_sem_def re_alt_def by auto

lemma re_sem_opt:
  assumes "re_sem a R"
  shows "re_sem (re_opt a) (\<lambda>w g g'. R w g g' \<or> (w = [] \<and> g' = g))"
  using assms unfolding re_sem_def re_opt_def by auto

lemma re_sem_group:
  assumes "re_sem a R"
  shows "re_sem (re_group k a) (\<lambda>w g g'. \<exists>gm. R w g gm \<and> g' = (k, w) # gm)"
  unfolding re_sem_def
proof (intro allI set_eqI iffI)
  fix p r g st'
  assume "st' \<in> set (re_group k a (p, r, g))"
  then obtain p1 r1 g1 where s1: "(p1, r1, g1) \<in> set (a (p, r, g))"
    and st: "st' = (p1, r1, (k, rev (take (length p1 - length p) p1)) # g1)"
    by (auto simp: re_group_def)
  from re_semD [OF assms s1] obtain w where
    w: "p1 = rev w @ p" "r = w @ r1" "R w g g1" by blast
  then show "st' \<in> {(rev w @ p, r', g') | w r' g'. r = w @ r' \<and>
      (\<exists>gm. R w g gm \<and> g' = (k, w) # gm)}"
    using st by auto
next
  fix p r g st'
  assume "st' \<in> {(rev w @ p, r', g') | w r' g'. r = w @ r' \<and>
      (\<exists>gm. R w g gm \<and> g' = (k, w) # gm)}"
  then obtain w r' gm where st: "st' = (rev w @ p, r', (k, w) # gm)" "r = w @ r'" "R w g gm"
    by blast
  have "(rev w @ p, r', gm) \<in> set (a (p, w @ r', g))"
    using re_semI [OF assms st(3)] .
  then have "(rev w @ p, r', (k, rev (take (length (rev w @ p) - length p) (rev w @ p))) # gm)
      \<in> set (re_group k a (p, r, g))"
    unfolding re_group_def st(2) by force
  then show "st' \<in> set (re_group k a (p, r, g))"
    using st(1) by simp
qed

lemma re_sem_rep_chr:
  "re_sem (re_rep m n (re_chr P))
     (\<lambda>w g g'. m \<le> length w \<and> length w \<le> n \<and> list_all P w \<and> g' = g)"
proof (induction n arbitrary: m)
  case 0
  show ?case unfolding re_sem_def by auto
next
  case (Suc n)
  note ih = Suc.IH [of "m - 1", unfolded re_sem_def, rule_format]
  show ?case
    unfolding re_sem_def
  proof (intro allI set_eqI iffI)
    fix p r g st'
    assume "st' \<in> set (re_rep m (Suc n) (re_chr P) (p, r, g))"
    then consider (more) c cs where "r = c # cs" "P c"
        "st' \<in> set (re_rep (m - 1) n (re_chr P) (c # p, cs, g))"
      | (stop) "m = 0" "st' = (p, r, g)"
      by (auto simp: re_chr_def split: list.splits if_splits)
    then show "st' \<in> {(rev w @ p, r', g') | w r' g'. r = w @ r' \<and>
        m \<le> length w \<and> length w \<le> Suc n \<and> list_all P w \<and> g' = g}"
    proof cases
      case more
      from more(3) [unfolded ih] obtain w r' where
        w: "st' = (rev w @ c # p, r', g)" "cs = w @ r'" "m - 1 \<le> length w" "length w \<le> n"
          "list_all P w" by blast
      then have "st' = (rev (c # w) @ p, r', g)" "r = (c # w) @ r'" "m \<le> length (c # w)"
        "length (c # w) \<le> Suc n" "list_all P (c # w)"
        using more(1,2) by auto
      then show ?thesis by blast
    next
      case stop
      then show ?thesis by auto
    qed
  next
    fix p r :: pystr and g :: groups and st' :: mstate
    assume "st' \<in> {(rev w @ p, r', g') | w r' g'. r = w @ r' \<and>
        m \<le> length w \<and> length w \<le> Suc n \<and> list_all P w \<and> g' = g}"
    then obtain w r' where w: "st' = (rev w @ p, r', g)" "r = w @ r'" "m \<le> length w"
      "length w \<le> Suc n" "list_all P w" by blast
    show "st' \<in> set (re_rep m (Suc n) (re_chr P) (p, r, g))"
    proof (cases w)
      case Nil
      with w show ?thesis by simp
    next
      case (Cons c w')
      with w have "(rev w' @ c # p, r', g) \<in> set (re_rep (m - 1) n (re_chr P) (c # p, w' @ r', g))"
        unfolding ih by auto
      with Cons w show ?thesis
        by (auto simp: re_chr_def)
    qed
  qed
qed

lemma re_sem_star_chr:
  "re_sem (re_star (re_chr P)) (\<lambda>w g g'. list_all P w \<and> g' = g)"
  unfolding re_sem_def re_star_def
  using re_sem_rep_chr [of 0 _ P, unfolded re_sem_def, rule_format]
  by auto

lemma re_sem_seqs_Nil: "re_sem (re_seqs []) (\<lambda>w g g'. w = [] \<and> g' = g)"
  by (simp add: re_seqs_def re_sem_eps)

lemma re_sem_seqs_Cons:
  assumes "re_sem a R1" "re_sem (re_seqs rs) R2"
  shows "re_sem (re_seqs (a # rs)) (\<lambda>w g g'. \<exists>u v gm. w = u @ v \<and> R1 u g gm \<and> R2 v gm g')"
  using re_sem_seq [OF assms [unfolded re_seqs_def]] by (simp add: re_seqs_def)

lemma re_sem_chars:
  "re_sem (re_seqs (map (\<lambda>c. re_chr (Q c)) s)) (\<lambda>w g g'. list_all2 Q s w \<and> g' = g)"
proof (induction s)
  case Nil
  show ?case by (simp, rule re_sem_cong [OF re_sem_seqs_Nil]) auto
next
  case (Cons c s)
  have split: "(\<exists>u v gm. w = u @ v \<and> (\<exists>x. u = [x] \<and> Q c x \<and> gm = g) \<and> list_all2 Q s v \<and> g' = gm)
      = (list_all2 Q (c # s) w \<and> g' = g)" for w and g g' :: groups
  proof
    assume "\<exists>u v gm. w = u @ v \<and> (\<exists>x. u = [x] \<and> Q c x \<and> gm = g) \<and> list_all2 Q s v \<and> g' = gm"
    then obtain x v where "w = x # v" "Q c x" "list_all2 Q s v" "g' = g" by auto
    then show "list_all2 Q (c # s) w \<and> g' = g" by simp
  next
    assume "list_all2 Q (c # s) w \<and> g' = g"
    then obtain x v where "w = [x] @ v" "Q c x" "list_all2 Q s v" "g' = g"
      by (auto simp: list_all2_Cons1)
    then show "\<exists>u v gm. w = u @ v \<and> (\<exists>x. u = [x] \<and> Q c x \<and> gm = g) \<and> list_all2 Q s v \<and> g' = gm"
      by blast
  qed
  show ?case
    by (simp, rule re_sem_cong [OF re_sem_seqs_Cons [OF re_sem_chr Cons]]) (use split in simp)
qed

lemma list_all2_is: "list_all2 (\<lambda>c x. x = c) s w = (w = s)"
  by (induction s arbitrary: w) (auto simp: list_all2_Cons1)

lemma re_sem_str: "re_sem (re_str s) (\<lambda>w g g'. w = s \<and> g' = g)"
  unfolding re_str_def
  by (rule re_sem_cong [OF re_sem_chars [of "\<lambda>c x. x = c"]]) (simp add: list_all2_is)

lemma re_sem_str_ic: "re_sem (re_str_ic U s) (\<lambda>w g g'. list_all2 (lit_ic U) s w \<and> g' = g)"
  unfolding re_str_ic_def by (rule re_sem_chars)

lemma search_from_None:
  "(search_from a p r = None) = (\<forall>u v. r = u @ v \<longrightarrow> a (rev u @ p, v, []) = [])"
proof (induction r arbitrary: p)
  case Nil
  show ?case by (auto split: list.splits)
next
  case (Cons c cs)
  show ?case
  proof (cases "a (p, c # cs, [])")
    case Nil
    have "(\<forall>u v. c # cs = u @ v \<longrightarrow> a (rev u @ p, v, []) = [])
        = (\<forall>u v. cs = u @ v \<longrightarrow> a (rev u @ c # p, v, []) = [])"
    proof (intro iffI allI impI)
      fix u v assume h: "\<forall>u v. c # cs = u @ v \<longrightarrow> a (rev u @ p, v, []) = []" and "cs = u @ v"
      then have "c # cs = (c # u) @ v" by simp
      with h have "a (rev (c # u) @ p, v, []) = []" by blast
      then show "a (rev u @ c # p, v, []) = []" by simp
    next
      fix u v assume h: "\<forall>u v. cs = u @ v \<longrightarrow> a (rev u @ c # p, v, []) = []" and e: "c # cs = u @ v"
      show "a (rev u @ p, v, []) = []"
      proof (cases u)
        case Nil
        with e \<open>a (p, c # cs, []) = []\<close> show ?thesis by simp
      next
        case (Cons x u')
        with e have "cs = u' @ v" "x = c" by simp_all
        with h have "a (rev u' @ c # p, v, []) = []" by blast
        with Cons \<open>x = c\<close> show ?thesis by simp
      qed
    qed
    with Nil Cons.IH [of "c # p"] show ?thesis by simp
  next
    case (Cons st sts)
    then have "a (rev [] @ p, c # cs, []) \<noteq> []" by simp
    then have "\<not> (\<forall>u v. c # cs = u @ v \<longrightarrow> a (rev u @ p, v, []) = [])"
      by (metis append_Nil)
    with Cons show ?thesis by simp
  qed
qed

lemma search_from_Some:
  assumes "search_from a p r = Some st"
  shows "\<exists>u v. r = u @ v \<and> a (rev u @ p, v, []) \<noteq> [] \<and> st = hd (a (rev u @ p, v, []))
           \<and> (\<forall>u' v'. r = u' @ v' \<and> length u' < length u \<longrightarrow> a (rev u' @ p, v', []) = [])"
  using assms
proof (induction r arbitrary: p)
  case Nil
  then show ?case by (auto split: list.splits)
next
  case (Cons c cs)
  show ?case
  proof (cases "a (p, c # cs, [])")
    case Nil
    with Cons.prems have "search_from a (c # p) cs = Some st" by simp
    from Cons.IH [OF this] obtain u v where
      uv: "cs = u @ v" "a (rev u @ c # p, v, []) \<noteq> []" "st = hd (a (rev u @ c # p, v, []))"
        "\<forall>u' v'. cs = u' @ v' \<and> length u' < length u \<longrightarrow> a (rev u' @ c # p, v', []) = []"
      by blast
    have "\<forall>u' v'. c # cs = u' @ v' \<and> length u' < length (c # u) \<longrightarrow> a (rev u' @ p, v', []) = []"
    proof (intro allI impI)
      fix u' v' assume h: "c # cs = u' @ v' \<and> length u' < length (c # u)"
      show "a (rev u' @ p, v', []) = []"
      proof (cases u')
        case Nil
        with h \<open>a (p, c # cs, []) = []\<close> show ?thesis by simp
      next
        case (Cons x u'')
        with h have "cs = u'' @ v'" "length u'' < length u" "x = c" by simp_all
        with uv(4) have "a (rev u'' @ c # p, v', []) = []" by blast
        with Cons \<open>x = c\<close> show ?thesis by simp
      qed
    qed
    with uv(1-3) show ?thesis
      by (intro exI [of _ "c # u"] exI [of _ v]) simp
  next
    case (Cons st' sts)
    with Cons.prems have "st = st'" by simp
    with Cons show ?thesis
      by (intro exI [of _ "[]"] exI [of _ "c # cs"]) simp
  qed
qed

lemma re_search_None:
  assumes "re_sem a R"
  shows "(re_search a text = None) = (\<forall>pre w post g. text = pre @ w @ post \<longrightarrow> \<not> R w [] g)"
proof -
  have key: "(a (rev u @ [], v, []) = []) = (\<forall>w post g. v = w @ post \<longrightarrow> \<not> R w [] g)" for u v
    using assms [unfolded re_sem_def, rule_format, of "rev u @ []" v "[]"]
    by (auto simp: set_empty [symmetric] simp del: set_empty)
  show ?thesis
    unfolding re_search_def search_from_None key by blast
qed

lemma re_search_Some:
  assumes "re_sem a R" "re_search a text = Some m"
  shows "\<exists>pre w post g. text = pre @ w @ post \<and> m = (rev w @ rev pre, post, g) \<and> R w [] g
           \<and> (\<forall>pre' w' post' g'. text = pre' @ w' @ post' \<and> R w' [] g' \<longrightarrow> length pre \<le> length pre')"
proof -
  from search_from_Some [OF assms(2) [unfolded re_search_def]] obtain u v where
    uv: "text = u @ v" "a (rev u @ [], v, []) \<noteq> []" "m = hd (a (rev u @ [], v, []))"
      "\<forall>u' v'. text = u' @ v' \<and> length u' < length u \<longrightarrow> a (rev u' @ [], v', []) = []"
    by blast
  from uv(2,3) have "m \<in> set (a (rev u @ [], v, []))" by simp
  from re_semD [OF assms(1) this] obtain w post g where
    w: "m = (rev w @ rev u @ [], post, g)" "v = w @ post" "R w [] g" by blast
  have "length u \<le> length pre'" if "text = pre' @ w' @ post'" "R w' [] g'" for pre' w' post' g'
  proof (rule ccontr)
    assume "\<not> length u \<le> length pre'"
    with that(1) uv(4) have "a (rev pre' @ [], w' @ post', []) = []" by simp
    moreover have "(rev w' @ rev pre' @ [], post', g') \<in> set (a (rev pre' @ [], w' @ post', []))"
      by (rule re_semI [OF assms(1) that(2)])
    ultimately show False by simp
  qed
  with uv(1) w show ?thesis
    by (intro exI [of _ u] exI [of _ w] exI [of _ post] exI [of _ g]) auto
qed

lemma re_lang_cong: "re_lang a L \<Longrightarrow> (\<And>w. L w = L' w) \<Longrightarrow> re_lang a L'"
  unfolding re_lang_def by simp

lemma re_lang_fail: "re_lang (\<lambda>st. []) (\<lambda>w. False)"
  unfolding re_lang_def re_sem_def by simp

lemma re_lang_eps: "re_lang re_eps (\<lambda>w. w = [])"
  unfolding re_lang_def by (rule re_sem_eps)

lemma re_lang_chr: "re_lang (re_chr P) (\<lambda>w. \<exists>c. w = [c] \<and> P c)"
  unfolding re_lang_def by (rule re_sem_cong [OF re_sem_chr]) auto

lemma re_lang_seq:
  assumes "re_lang a L1" "re_lang b L2"
  shows "re_lang (re_seq a b) (\<lambda>w. \<exists>u v. w = u @ v \<and> L1 u \<and> L2 v)"
  unfolding re_lang_def
  by (rule re_sem_cong [OF re_sem_seq [OF assms [unfolded re_lang_def]]]) auto

lemma re_lang_alt:
  assumes "re_lang a L1" "re_lang b L2"
  shows "re_lang (re_alt a b) (\<lambda>w. L1 w \<or> L2 w)"
  unfolding re_lang_def
  by (rule re_sem_cong [OF re_sem_alt [OF assms [unfolded re_lang_def]]]) auto

lemma re_lang_opt:
  assumes "re_lang a L"
  shows "re_lang (re_opt a) (\<lambda>w. L w \<or> w = [])"
  unfolding re_lang_def
  by (rule re_sem_cong [OF re_sem_opt [OF assms [unfolded re_lang_def]]]) auto

lemma re_lang_rep_chr:
  "re_lang (re_rep m n (re_chr P)) (\<lambda>w. m \<le> length w \<and> length w \<le> n \<and> list_all P w)"
  unfolding re_lang_def by (rule re_sem_cong [OF re_sem_rep_chr]) auto

lemma re_lang_star_chr: "re_lang (re_star (re_chr P)) (list_all P)"
  unfolding re_lang_def by (rule re_sem_star_chr)

lemma re_lang_str_ic: "re_lang (re_str_ic U s) (list_all2 (lit_ic U) s)"
  unfolding re_lang_def by (rule re_sem_str_ic)

lemma re_lang_str: "re_lang (re_str s) (\<lambda>w. w = s)"
  unfolding re_lang_def by (rule re_sem_str)

lemma re_lang_seqs_Nil: "re_lang (re_seqs []) (\<lambda>w. w = [])"
  unfolding re_lang_def by (rule re_sem_seqs_Nil)

lemma re_lang_seqs_Cons:
  assumes "re_lang a L1" "re_lang (re_seqs rs) L2"
  shows "re_lang (re_seqs (a # rs)) (\<lambda>w. \<exists>u v. w = u @ v \<and> L1 u \<and> L2 v)"
  using re_lang_seq [OF assms [unfolded re_seqs_def]] by (simp add: re_seqs_def)

lemma re_lang_seqs_single:
  assumes "re_lang a L"
  shows "re_lang (re_seqs [a]) L"
  by (rule re_lang_cong [OF re_lang_seqs_Cons [OF assms re_lang_seqs_Nil]]) simp

lemma re_lang_blank: "re_lang (re_opt (re_chr (is_space U))) (blank_word U)"
proof (rule re_lang_cong [OF re_lang_opt [OF re_lang_chr]])
  fix w
  show "((\<exists>c. w = [c] \<and> is_space U c) \<or> w = []) = blank_word U w"
    by (cases w) (auto simp: blank_word_def)
qed

lemma number_lang: "re_lang (number_re U) (number_word U)"
  unfolding number_re_def
proof (rule re_lang_cong [OF re_lang_seqs_Cons [OF re_lang_rep_chr
        re_lang_seqs_Cons [OF re_lang_chr re_lang_seqs_single [OF re_lang_rep_chr]]]])
  fix w
  show "(\<exists>u v. w = u @ v \<and> (1 \<le> length u \<and> length u \<le> 10 \<and> list_all (is_digit U) u) \<and>
          (\<exists>u va. v = u @ va \<and> (\<exists>c. u = [c] \<and> (c = 44 \<or> c = 46)) \<and>
             2 \<le> length va \<and> length va \<le> 2 \<and> list_all (is_digit U) va))
      = number_word U w"
    unfolding number_word_def
  proof
    assume "\<exists>u v. w = u @ v \<and> (1 \<le> length u \<and> length u \<le> 10 \<and> list_all (is_digit U) u) \<and>
          (\<exists>u va. v = u @ va \<and> (\<exists>c. u = [c] \<and> (c = 44 \<or> c = 46)) \<and>
             2 \<le> length va \<and> length va \<le> 2 \<and> list_all (is_digit U) va)"
    then obtain u c va where "w = u @ c # va" "1 \<le> length u" "length u \<le> 10"
      "list_all (is_digit U) u" "c = 44 \<or> c = 46" "length va = 2" "list_all (is_digit U) va"
      by auto
    then show "\<exists>ds sep f. w = ds @ sep # f \<and> 1 \<le> length ds \<and> length ds \<le> 10 \<and>
        list_all (is_digit U) ds \<and> (sep = 44 \<or> sep = 46) \<and> length f = 2 \<and> list_all (is_digit U) f"
      by blast
  next
    assume "\<exists>ds sep f. w = ds @ sep # f \<and> 1 \<le> length ds \<and> length ds \<le> 10 \<and>
        list_all (is_digit U) ds \<and> (sep = 44 \<or> sep = 46) \<and> length f = 2 \<and> list_all (is_digit U) f"
    then obtain ds sep f where h: "w = ds @ [sep] @ f" "1 \<le> length ds" "length ds \<le> 10"
      "list_all (is_digit U) ds" "sep = 44 \<or> sep = 46" "2 \<le> length f" "length f \<le> 2"
      "list_all (is_digit U) f"
      by auto
    show "\<exists>u v. w = u @ v \<and> (1 \<le> length u \<and> length u \<le> 10 \<and> list_all (is_digit U) u) \<and>
          (\<exists>u va. v = u @ va \<and> (\<exists>c. u = [c] \<and> (c = 44 \<or> c = 46)) \<and>
             2 \<le> length va \<and> length va \<le> 2 \<and> list_all (is_digit U) va)"
      using h by blast
  qed
qed

lemma re_lang_alts_Nil: "re_lang (re_alts []) (\<lambda>w. False)"
  by (simp add: re_alts_def re_lang_fail)

lemma re_lang_alts_Cons:
  assumes "re_lang a L1" "re_lang (re_alts rs) L2"
  shows "re_lang (re_alts (a # rs)) (\<lambda>w. L1 w \<or> L2 w)"
  using re_lang_alt [OF assms [unfolded re_alts_def]] by (simp add: re_alts_def)

lemma marker_lang: "re_lang (marker_re U) (marker_word U)"
  unfolding marker_re_def
  by (rule re_lang_cong [OF re_lang_alts_Cons [OF re_lang_str_ic re_lang_alts_Cons [OF re_lang_str_ic
        re_lang_alts_Cons [OF re_lang_str_ic re_lang_alts_Cons [OF re_lang_str_ic re_lang_alts_Nil]]]]])
    (simp add: marker_word_def markers_def)

lemma re_sem_group_lang:
  assumes "re_lang a L"
  shows "re_sem (re_group k a) (\<lambda>w g g'. L w \<and> g' = (k, w) # g)"
  by (rule re_sem_cong [OF re_sem_group [OF assms [unfolded re_lang_def]]]) auto

lemma re_sem_of_lang: "re_lang a L \<Longrightarrow> re_sem a (\<lambda>w g g'. L w \<and> g' = g)"
  unfolding re_lang_def .

lemma re_sem_seqs3:
  assumes "re_sem a R1" "re_sem b R2" "re_sem c R3"
  shows "re_sem (re_seqs [a, b, c])
     (\<lambda>w g g'. \<exists>u v x g1 g2. w = u @ v @ x \<and> R1 u g g1 \<and> R2 v g1 g2 \<and> R3 x g2 g')"
proof (rule re_sem_cong [OF re_sem_seqs_Cons [OF assms(1) re_sem_seqs_Cons [OF assms(2)
          re_sem_seqs_Cons [OF assms(3) re_sem_seqs_Nil]]]])
  fix w and g g' :: groups
  show "(\<exists>u v gm. w = u @ v \<and> R1 u g gm \<and>
           (\<exists>u va gma. v = u @ va \<and> R2 u gm gma \<and>
              (\<exists>u v gm. va = u @ v \<and> R3 u gma gm \<and> v = [] \<and> g' = gm)))
      = (\<exists>u v x g1 g2. w = u @ v @ x \<and> R1 u g g1 \<and> R2 v g1 g2 \<and> R3 x g2 g')"
    by (simp; blast)
qed

lemma amount_marker_sem:
  "re_sem (amount_marker_re U)
     (\<lambda>w g g'. \<exists>num ws mk. w = num @ ws @ mk \<and> number_word U num \<and> blank_word U ws \<and>
        marker_word U mk \<and> g' = (2, mk) # (1, num) # g)"
  unfolding amount_marker_re_def
  by (rule re_sem_cong [OF re_sem_seqs3 [OF re_sem_group_lang [OF number_lang]
          re_sem_of_lang [OF re_lang_blank] re_sem_group_lang [OF marker_lang]]]) auto

lemma marker_amount_sem:
  "re_sem (marker_amount_re U)
     (\<lambda>w g g'. \<exists>mk ws num. w = mk @ ws @ num \<and> marker_word U mk \<and> blank_word U ws \<and>
        number_word U num \<and> g' = (2, num) # (1, mk) # g)"
  unfolding marker_amount_re_def
  by (rule re_sem_cong [OF re_sem_seqs3 [OF re_sem_group_lang [OF marker_lang]
          re_sem_of_lang [OF re_lang_blank] re_sem_group_lang [OF number_lang]]]) auto

lemma round_half_even_nonneg: "0 \<le> x \<Longrightarrow> 0 \<le> round_half_even x"
  unfolding round_half_even_def Let_def
  by (auto simp: zero_le_floor intro: add_nonneg_nonneg)

lemma binary64_nonneg:
  assumes "0 \<le> q"
  shows "0 \<le> binary64 q"
proof (cases "q = 0")
  case True
  then show ?thesis by (simp add: binary64_def)
next
  case False
  define e where "e = floor_log2 \<bar>q\<bar> - 52"
  have pos: "(0::rat) < 2 powi e" by (simp add: zero_less_power_int)
  with assms have "0 \<le> q / 2 powi e" by simp
  then have "0 \<le> round_half_even (q / 2 powi e)" by (rule round_half_even_nonneg)
  with pos have "0 \<le> rat_of_int (round_half_even (q / 2 powi e)) * 2 powi e" by simp
  with False show ?thesis by (simp add: binary64_def Let_def e_def)
qed

lemma decimal_of_digits:
  "list_all (is_digit U) ds \<Longrightarrow> \<exists>n. decimal_of U ds acc = Some n"
  by (induction ds arbitrary: acc) (auto simp: is_digit_def)

lemma digit_not_sep: "is_digit U c \<Longrightarrow> c \<noteq> 44 \<and> c \<noteq> 46"
  by (auto simp: is_digit_def digit_value_def is_ascii_digit_def split: if_splits)

lemma replace_digits: "list_all (is_digit U) ds \<Longrightarrow> replace_char 44 new ds = ds"
  by (induction ds) (auto simp: replace_char_def dest: digit_not_sep)

lemma takeWhile_digits:
  "list_all (is_digit U) ds \<Longrightarrow> takeWhile (\<lambda>c. c \<noteq> 46) (ds @ 46 # f) = ds"
  by (induction ds) (auto dest: digit_not_sep)

lemma py_float_number:
  assumes "number_word U num"
  shows "\<exists>x. py_float U (replace_char 44 (ascii ''.'') num) = Inr x \<and> 0 \<le> x"
proof -
  from assms obtain ds sep f where n: "num = ds @ sep # f" "1 \<le> length ds"
    "list_all (is_digit U) ds" "sep = 44 \<or> sep = 46" "length f = 2" "list_all (is_digit U) f"
    unfolding number_word_def by blast
  have "replace_char 44 (ascii ''.'') num = replace_char 44 (ascii ''.'') ds @ 46 # replace_char 44 (ascii ''.'') f"
    using n(1,4) by (auto simp: replace_char_def ascii_def)
  then have norm: "replace_char 44 (ascii ''.'') num = ds @ 46 # f"
    using replace_digits [OF n(3)] replace_digits [OF n(6)] by simp
  obtain i j where ij: "decimal_of U ds 0 = Some i" "decimal_of U f 0 = Some j"
    using decimal_of_digits [OF n(3)] decimal_of_digits [OF n(6)] by blast
  have ne: "ds \<noteq> []" "f \<noteq> []" using n(2,5) by auto
  have "py_float U (ds @ 46 # f) = Inr (binary64 (of_nat i + of_nat j / 10 ^ length f))"
    using ij ne by (simp add: py_float_def takeWhile_digits [OF n(3)] Let_def)
  moreover have "0 \<le> binary64 (of_nat i + of_nat j / 10 ^ length f)"
    by (rule binary64_nonneg) simp
  ultimately show ?thesis using norm by simp
qed

lemma replace_nonempty: "s \<noteq> [] \<Longrightarrow> new \<noteq> [] \<Longrightarrow> replace_char old new s \<noteq> []"
  by (cases s) (auto simp: replace_char_def)

lemma number_word_nonempty: "number_word U num \<Longrightarrow> num \<noteq> []"
  by (auto simp: number_word_def)

lemma search1_None:
  "(re_search (amount_marker_re U) text = None) = (\<forall>pre num. \<not> amount_before_marker U text pre num)"
  unfolding re_search_None [OF amount_marker_sem]
proof (intro iffI allI notI impI)
  fix pre num
  assume h: "\<forall>pre w post g. text = pre @ w @ post \<longrightarrow>
      \<not> (\<exists>num ws mk. w = num @ ws @ mk \<and> number_word U num \<and> blank_word U ws \<and>
           marker_word U mk \<and> g = [(2, mk), (1, num)])"
    and "amount_before_marker U text pre num"
  then obtain ws mk post where t: "text = pre @ (num @ ws @ mk) @ post"
      "number_word U num" "blank_word U ws" "marker_word U mk"
    unfolding amount_before_marker_def by auto
  from h [rule_format, OF t(1), of "[(2, mk), (1, num)]"] t(2-4) show False by blast
next
  fix pre w post :: pystr and g :: groups
  assume h: "\<forall>pre num. \<not> amount_before_marker U text pre num" and t: "text = pre @ w @ post"
    and "\<exists>num ws mk. w = num @ ws @ mk \<and> number_word U num \<and> blank_word U ws \<and>
           marker_word U mk \<and> g = [(2, mk), (1, num)]"
  then obtain num ws mk where "w = num @ ws @ mk" "number_word U num" "blank_word U ws"
    "marker_word U mk" by blast
  with t have "amount_before_marker U text pre num"
    unfolding amount_before_marker_def by auto
  with h show False by blast
qed

lemma search2_None:
  "(re_search (marker_amount_re U) text = None) = (\<forall>pre num. \<not> marker_before_amount U text pre num)"
  unfolding re_search_None [OF marker_amount_sem]
proof (intro iffI allI notI impI)
  fix pre num
  assume h: "\<forall>pre w post g. text = pre @ w @ post \<longrightarrow>
      \<not> (\<exists>mk ws num. w = mk @ ws @ num \<and> marker_word U mk \<and> blank_word U ws \<and>
           number_word U num \<and> g = [(2, num), (1, mk)])"
    and "marker_before_amount U text pre num"
  then obtain ws mk post where t: "text = pre @ (mk @ ws @ num) @ post"
      "number_word U num" "blank_word U ws" "marker_word U mk"
    unfolding marker_before_amount_def by auto
  from h [rule_format, OF t(1), of "[(2, num), (1, mk)]"] t(2-4) show False by blast
next
  fix pre w post :: pystr and g :: groups
  assume h: "\<forall>pre num. \<not> marker_before_amount U text pre num" and t: "text = pre @ w @ post"
    and "\<exists>mk ws num. w = mk @ ws @ num \<and> marker_word U mk \<and> blank_word U ws \<and>
           number_word U num \<and> g = [(2, num), (1, mk)]"
  then obtain num ws mk where "w = mk @ ws @ num" "number_word U num" "blank_word U ws"
    "marker_word U mk" by blast
  with t have "marker_before_amount U text pre num"
    unfolding marker_before_amount_def by auto
  with h show False by blast
qed

lemma search1_Some:
  assumes "re_search (amount_marker_re U) text = Some m"
  shows "\<exists>pre num. amount_before_marker U text pre num \<and> group m 1 = Some num \<and>
           (\<forall>pre' num'. amount_before_marker U text pre' num' \<longrightarrow> length pre \<le> length pre')"
proof -
  from re_search_Some [OF amount_marker_sem assms] obtain pre w post g where
    h: "text = pre @ w @ post" "m = (rev w @ rev pre, post, g)"
    and r: "\<exists>num ws mk. w = num @ ws @ mk \<and> number_word U num \<and> blank_word U ws \<and>
           marker_word U mk \<and> g = [(2, mk), (1, num)]"
    and least: "\<forall>pre' w' post' g'. text = pre' @ w' @ post' \<and>
        (\<exists>num ws mk. w' = num @ ws @ mk \<and> number_word U num \<and> blank_word U ws \<and>
           marker_word U mk \<and> g' = [(2::nat, mk), (1, num)]) \<longrightarrow> length pre \<le> length pre'"
    by (elim exE conjE) (rule that, assumption, assumption, blast, assumption)
  from r obtain num ws mk where w: "w = num @ ws @ mk" "number_word U num" "blank_word U ws"
    "marker_word U mk" "g = [(2, mk), (1, num)]" by blast
  have a: "amount_before_marker U text pre num"
    unfolding amount_before_marker_def using h(1) w by auto
  have b: "group m 1 = Some num" using h(2) w(5) by (simp add: group_def)
  have c: "length pre \<le> length pre'" if "amount_before_marker U text pre' num'" for pre' num'
  proof -
    from that obtain ws' mk' post' where t: "text = pre' @ (num' @ ws' @ mk') @ post'"
      "number_word U num'" "blank_word U ws'" "marker_word U mk'"
      unfolding amount_before_marker_def by auto
    from t have "\<exists>num ws mk. num' @ ws' @ mk' = num @ ws @ mk \<and> number_word U num \<and>
        blank_word U ws \<and> marker_word U mk \<and> [(2, mk'), (1, num')] = [(2::nat, mk), (1, num)]"
      by blast
    with least [rule_format, of pre' "num' @ ws' @ mk'" post' "[(2, mk'), (1, num')]"] t(1)
    show ?thesis by blast
  qed
  from a b c show ?thesis by blast
qed

lemma search2_Some:
  assumes "re_search (marker_amount_re U) text = Some m"
  shows "\<exists>pre num. marker_before_amount U text pre num \<and> group m 2 = Some num \<and>
           (\<forall>pre' num'. marker_before_amount U text pre' num' \<longrightarrow> length pre \<le> length pre')"
proof -
  from re_search_Some [OF marker_amount_sem assms] obtain pre w post g where
    h: "text = pre @ w @ post" "m = (rev w @ rev pre, post, g)"
    and r: "\<exists>mk ws num. w = mk @ ws @ num \<and> marker_word U mk \<and> blank_word U ws \<and>
           number_word U num \<and> g = [(2, num), (1, mk)]"
    and least: "\<forall>pre' w' post' g'. text = pre' @ w' @ post' \<and>
        (\<exists>mk ws num. w' = mk @ ws @ num \<and> marker_word U mk \<and> blank_word U ws \<and>
           number_word U num \<and> g' = [(2::nat, num), (1, mk)]) \<longrightarrow> length pre \<le> length pre'"
    by (elim exE conjE) (rule that, assumption, assumption, blast, assumption)
  from r obtain num ws mk where w: "w = mk @ ws @ num" "number_word U num" "blank_word U ws"
    "marker_word U mk" "g = [(2, num), (1, mk)]" by blast
  have a: "marker_before_amount U text pre num"
    unfolding marker_before_amount_def using h(1) w by auto
  have b: "group m 2 = Some num" using h(2) w(5) by (simp add: group_def)
  have c: "length pre \<le> length pre'" if "marker_before_amount U text pre' num'" for pre' num'
  proof -
    from that obtain ws' mk' post' where t: "text = pre' @ (mk' @ ws' @ num') @ post'"
      "number_word U num'" "blank_word U ws'" "marker_word U mk'"
      unfolding marker_before_amount_def by auto
    from t have "\<exists>mk ws num. mk' @ ws' @ num' = mk @ ws @ num \<and> marker_word U mk \<and>
        blank_word U ws \<and> number_word U num \<and> [(2, num'), (1, mk')] = [(2::nat, num), (1, mk)]"
      by blast
    with least [rule_format, of pre' "mk' @ ws' @ num'" post' "[(2, num'), (1, mk')]"] t(1)
    show ?thesis by blast
  qed
  from a b c show ?thesis by blast
qed

lemma parse_amount_result:
  "\<exists>x. parse_amount U text = Inr x \<and> 0 \<le> x \<and> amount_spec U text x"
proof (cases "re_search (amount_marker_re U) text")
  case (Some m)
  from search1_Some [OF Some] obtain pre num where
    h: "amount_before_marker U text pre num" "group m 1 = Some num"
      "\<forall>pre' num'. amount_before_marker U text pre' num' \<longrightarrow> length pre \<le> length pre'"
    by blast
  then have nw: "number_word U num" by (auto simp: amount_before_marker_def)
  from py_float_number [OF nw] obtain x where
    x: "py_float U (replace_char 44 (ascii ''.'') num) = Inr x" "0 \<le> x" by blast
  have "parse_amount U text = Inr x"
    using Some h(2) x(1) number_word_nonempty [OF nw]
    by (simp add: parse_amount_def parse_amount_str_def)
  moreover have "amount_spec U text x"
    unfolding amount_spec_def using h(1,3) x(1) by auto
  ultimately show ?thesis using x(2) by blast
next
  case None
  note n1 = None
  then have no1: "\<not> (\<exists>pre num. amount_before_marker U text pre num)"
    by (simp add: search1_None)
  show ?thesis
  proof (cases "re_search (marker_amount_re U) text")
    case (Some m)
    from search2_Some [OF Some] obtain pre num where
      h: "marker_before_amount U text pre num" "group m 2 = Some num"
        "\<forall>pre' num'. marker_before_amount U text pre' num' \<longrightarrow> length pre \<le> length pre'"
      by blast
    then have nw: "number_word U num" by (auto simp: marker_before_amount_def)
    from py_float_number [OF nw] obtain x where
      x: "py_float U (replace_char 44 (ascii ''.'') num) = Inr x" "0 \<le> x" by blast
    have "parse_amount U text = Inr x"
      using n1 Some h(2) x(1) number_word_nonempty [OF nw]
      by (simp add: parse_amount_def parse_amount_str_def)
    moreover have "amount_spec U text x"
      unfolding amount_spec_def using no1 h(1,3) x(1) by auto
    ultimately show ?thesis using x(2) by blast
  next
    case None
    then have no2: "\<not> (\<exists>pre num. marker_before_amount U text pre num)"
      by (simp add: search2_None)
    have "parse_amount U text = Inr 0"
      using n1 None by (simp add: parse_amount_def parse_amount_str_def)
    moreover have "amount_spec U text 0"
      unfolding amount_spec_def using no1 no2 by simp
    ultimately show ?thesis by simp
  qed
qed

lemma re_semcD:
  "re_semc a R \<Longrightarrow> st' \<in> set (a (p, r, g)) \<Longrightarrow>
     \<exists>w r' g'. st' = (rev w @ p, r', g') \<and> r = w @ r' \<and> R p w r' g g'"
  unfolding re_semc_def by blast

lemma re_semcI:
  "re_semc a R \<Longrightarrow> R p w r' g g' \<Longrightarrow> (rev w @ p, r', g') \<in> set (a (p, w @ r', g))"
  unfolding re_semc_def by blast

lemma re_searchc_None:
  assumes "re_semc a R"
  shows "(re_search a text = None) =
           (\<forall>pre w post g. text = pre @ w @ post \<longrightarrow> \<not> R (rev pre) w post [] g)"
proof -
  have key: "(a (rev u @ [], v, []) = []) = (\<forall>w post g. v = w @ post \<longrightarrow> \<not> R (rev u) w post [] g)"
    for u v
    using assms [unfolded re_semc_def, rule_format, of "rev u @ []" v "[]"]
    by (auto simp: set_empty [symmetric] simp del: set_empty)
  show ?thesis
    unfolding re_search_def search_from_None key by blast
qed

lemma re_searchc_Some:
  assumes "re_semc a R" "re_search a text = Some m"
  shows "\<exists>pre w post g. text = pre @ w @ post \<and> m = hd (a (rev pre, w @ post, []))
           \<and> m = (rev w @ rev pre, post, g) \<and> R (rev pre) w post [] g
           \<and> (\<forall>pre' w' post' g'. text = pre' @ w' @ post' \<and> R (rev pre') w' post' [] g'
                 \<longrightarrow> length pre \<le> length pre')"
proof -
  from search_from_Some [OF assms(2) [unfolded re_search_def]] obtain u v where
    uv: "text = u @ v" "a (rev u @ [], v, []) \<noteq> []" "m = hd (a (rev u @ [], v, []))"
      "\<forall>u' v'. text = u' @ v' \<and> length u' < length u \<longrightarrow> a (rev u' @ [], v', []) = []"
    by blast
  from uv(2,3) have "m \<in> set (a (rev u, v, []))" by simp
  from re_semcD [OF assms(1) this] obtain w post g where
    w: "m = (rev w @ rev u, post, g)" "v = w @ post" "R (rev u) w post [] g" by blast
  have "length u \<le> length pre'" if "text = pre' @ w' @ post'" "R (rev pre') w' post' [] g'"
    for pre' w' post' g'
  proof (rule ccontr)
    assume "\<not> length u \<le> length pre'"
    with that(1) uv(4) have "a (rev pre' @ [], w' @ post', []) = []" by simp
    moreover have "(rev w' @ rev pre', post', g') \<in> set (a (rev pre', w' @ post', []))"
      by (rule re_semcI [OF assms(1) that(2)])
    ultimately show False by simp
  qed
  with uv(1,3) w show ?thesis
    by (intro exI [of _ u] exI [of _ w] exI [of _ post] exI [of _ g]) auto
qed

lemma re_sem_semc: "re_sem a R \<Longrightarrow> re_semc a (\<lambda>p w r'. R w)"
  unfolding re_sem_def re_semc_def .

lemma re_seq_assoc: "re_seq (re_seq a b) c = re_seq a (re_seq b c)"
proof
  fix st
  have "concat (map c (concat (map b xs))) = concat (map (\<lambda>x. concat (map c (b x))) xs)" for xs
    by (induction xs) simp_all
  then show "re_seq (re_seq a b) c st = re_seq a (re_seq b c) st"
    by (simp add: re_seq_def)
qed

lemma re_seq_eps: "re_seq a re_eps = a"
  by (rule ext) (simp add: re_seq_def re_eps_def)

lemma hd_concat_map:
  "concat (map f xs) \<noteq> [] \<Longrightarrow> \<exists>x \<in> set xs. f x \<noteq> [] \<and> hd (concat (map f xs)) = hd (f x)"
proof (induction xs)
  case Nil
  then show ?case by simp
next
  case (Cons x xs)
  then show ?case by (cases "f x = []") auto
qed

lemma re_rep_chr_hd:
  assumes "re_rep m n (re_chr P) (p, r, g) \<noteq> []"
  shows "\<exists>w r'. hd (re_rep m n (re_chr P) (p, r, g)) = (rev w @ p, r', g) \<and> r = w @ r'
           \<and> (length w = n \<or> r' = [] \<or> \<not> P (hd r'))"
  using assms
proof (induction n arbitrary: m p r)
  case 0
  then show ?case by (auto split: if_splits)
next
  case (Suc n)
  show ?case
  proof (cases "\<exists>c cs. r = c # cs \<and> P c \<and> re_rep (m - 1) n (re_chr P) (c # p, cs, g) \<noteq> []")
    case True
    then obtain c cs where r: "r = c # cs" "P c" "re_rep (m - 1) n (re_chr P) (c # p, cs, g) \<noteq> []"
      by blast
    from Suc.IH [OF r(3)] obtain w r' where
      w: "hd (re_rep (m - 1) n (re_chr P) (c # p, cs, g)) = (rev w @ c # p, r', g)" "cs = w @ r'"
        "length w = n \<or> r' = [] \<or> \<not> P (hd r')" by blast
    have "hd (re_rep m (Suc n) (re_chr P) (p, r, g)) = (rev (c # w) @ p, r', g)"
      using r w(1) by (simp add: re_chr_def)
    with r(1) w(2,3) show ?thesis
      by (intro exI [of _ "c # w"] exI [of _ r']) auto
  next
    case False
    with Suc.prems have m: "m = 0" and res: "re_rep m (Suc n) (re_chr P) (p, r, g) = [(p, r, g)]"
      by (auto simp: re_chr_def split: list.splits if_splits)
    have "r = [] \<or> \<not> P (hd r)"
    proof (rule ccontr)
      assume "\<not> (r = [] \<or> \<not> P (hd r))"
      then obtain c cs where r: "r = c # cs" "P c" by (cases r) auto
      have "(c # p, cs, g) \<in> set (re_rep 0 n (re_chr P) (c # p, cs, g))"
        using re_semI [OF re_sem_rep_chr [of 0 n P], of "[]" g g "c # p" cs] by simp
      with False r m show False by auto
    qed
    with res show ?thesis by (intro exI [of _ "[]"] exI [of _ r]) simp
  qed
qed

lemma list_all2_mid:
  "(\<exists>u v. w = u @ v \<and> list_all2 P a u \<and> (\<exists>ua va. v = ua @ va \<and> (\<exists>y. ua = [y] \<and> (P c y \<or> P d y)) \<and> list_all2 P b va))
     = (list_all2 P (a @ c # b) w \<or> list_all2 P (a @ d # b) w)"
proof
  assume "\<exists>u v. w = u @ v \<and> list_all2 P a u \<and> (\<exists>ua va. v = ua @ va \<and> (\<exists>y. ua = [y] \<and> (P c y \<or> P d y)) \<and> list_all2 P b va)"
  then obtain u y va where h: "w = u @ y # va" "list_all2 P a u" "P c y \<or> P d y" "list_all2 P b va"
    by auto
  then show "list_all2 P (a @ c # b) w \<or> list_all2 P (a @ d # b) w"
    by (auto intro!: list_all2_appendI)
next
  assume "list_all2 P (a @ c # b) w \<or> list_all2 P (a @ d # b) w"
  then obtain u y va where h: "w = u @ [y] @ va" "list_all2 P a u" "P c y \<or> P d y" "list_all2 P b va"
    by (auto simp: list_all2_append1 list_all2_Cons1)
  then show "\<exists>u v. w = u @ v \<and> list_all2 P a u \<and> (\<exists>ua va. v = ua @ va \<and> (\<exists>y. ua = [y] \<and> (P c y \<or> P d y)) \<and> list_all2 P b va)"
    by blast
qed

lemma label_lang: "re_lang (label_re U) (label_word U)"
  unfolding label_re_def
proof (rule re_lang_cong [OF re_lang_alt [OF re_lang_str_ic re_lang_seqs_Cons [OF re_lang_str_ic
          re_lang_seqs_Cons [OF re_lang_chr re_lang_seqs_single [OF re_lang_str_ic]]]]])
  fix w
  have a: "ascii ''Variabilny symbol'' = ascii ''Variabiln'' @ 121 # ascii '' symbol''"
    and b: "ascii ''Variabiln'' @ [253] @ ascii '' symbol'' = ascii ''Variabiln'' @ 253 # ascii '' symbol''"
    by (simp_all add: ascii_def)
  show "(list_all2 (lit_ic U) (ascii ''VS'') w \<or>
          (\<exists>u v. w = u @ v \<and> list_all2 (lit_ic U) (ascii ''Variabiln'') u \<and>
             (\<exists>ua va. v = ua @ va \<and> (\<exists>c. ua = [c] \<and> (lit_ic U 121 c \<or> lit_ic U 253 c)) \<and>
                list_all2 (lit_ic U) (ascii '' symbol'') va)))
      = label_word U w"
    unfolding label_word_def a b list_all2_mid ..
qed

lemma re_sem_seqs4:
  assumes "re_sem a R1" "re_sem b R2" "re_sem c R3" "re_sem d R4"
  shows "re_sem (re_seqs [a, b, c, d])
     (\<lambda>w g g'. \<exists>u v x y g1 g2 g3. w = u @ v @ x @ y \<and> R1 u g g1 \<and> R2 v g1 g2 \<and> R3 x g2 g3 \<and> R4 y g3 g')"
proof (rule re_sem_cong [OF re_sem_seqs_Cons [OF assms(1) re_sem_seqs_Cons [OF assms(2)
          re_sem_seqs_Cons [OF assms(3) re_sem_seqs_Cons [OF assms(4) re_sem_seqs_Nil]]]]])
  fix w and g g' :: groups
  show "(\<exists>u v gm. w = u @ v \<and> R1 u g gm \<and>
           (\<exists>u va gma. v = u @ va \<and> R2 u gm gma \<and>
              (\<exists>u v gm. va = u @ v \<and> R3 u gma gm \<and>
                 (\<exists>u va gma. v = u @ va \<and> R4 u gm gma \<and> va = [] \<and> g' = gma))))
      = (\<exists>u v x y g1 g2 g3. w = u @ v @ x @ y \<and> R1 u g g1 \<and> R2 v g1 g2 \<and> R3 x g2 g3 \<and> R4 y g3 g')"
    by (simp; blast)
qed

lemma colon_lang: "re_lang (re_opt (re_chr (\<lambda>c. c = 58))) colon_word"
  by (rule re_lang_cong [OF re_lang_opt [OF re_lang_chr]]) (auto simp: colon_word_def)

lemma digits_lang: "re_lang (re_rep m n (re_chr (is_digit U))) (digits_word U m n)"
  unfolding digits_word_def by (rule re_lang_rep_chr)

lemma vs_label_sem:
  "re_sem (vs_label_re U)
     (\<lambda>w g g'. \<exists>lab col ws ds. w = lab @ col @ ws @ ds \<and> label_word U lab \<and> colon_word col \<and>
        list_all (is_space U) ws \<and> digits_word U 1 10 ds \<and> g' = (2, ds) # (1, lab) # g)"
  unfolding vs_label_re_def
  by (rule re_sem_cong [OF re_sem_seqs4 [OF re_sem_group_lang [OF label_lang]
          re_sem_of_lang [OF colon_lang] re_sem_of_lang [OF re_lang_star_chr]
          re_sem_group_lang [OF digits_lang]]]) auto

lemma group_rep_hd:
  assumes "re_group k (re_rep m n (re_chr P)) (p, r, g) \<noteq> []"
  shows "\<exists>w r'. hd (re_group k (re_rep m n (re_chr P)) (p, r, g)) = (rev w @ p, r', (k, w) # g)
           \<and> r = w @ r' \<and> (length w = n \<or> r' = [] \<or> \<not> P (hd r'))"
proof -
  from assms have ne: "re_rep m n (re_chr P) (p, r, g) \<noteq> []"
    by (simp add: re_group_def)
  from re_rep_chr_hd [OF ne] obtain w r' where
    w: "hd (re_rep m n (re_chr P) (p, r, g)) = (rev w @ p, r', g)" "r = w @ r'"
      "length w = n \<or> r' = [] \<or> \<not> P (hd r')" by blast
  have "hd (re_group k (re_rep m n (re_chr P)) (p, r, g)) = (rev w @ p, r', (k, w) # g)"
    using ne w(1) by (simp add: re_group_def hd_map)
  with w(2,3) show ?thesis by blast
qed

lemma vs_label_split:
  "vs_label_re U =
     re_seq (re_seqs [re_group 1 (label_re U), re_opt (re_chr (\<lambda>c. c = 58)), re_star (re_chr (is_space U))])
       (re_group 2 (re_rep 1 10 (re_chr (is_digit U))))"
  by (simp add: vs_label_re_def re_seqs_def re_seq_assoc re_seq_eps)

lemma vs_label_Some:
  assumes "re_search (vs_label_re U) text = Some m"
  shows "\<exists>pre ds post. labelled_digits U text pre ds post \<and> group m 2 = Some ds
           \<and> (length ds = 10 \<or> post = [] \<or> \<not> is_digit U (hd post))
           \<and> (\<forall>pre' ds' post'. labelled_digits U text pre' ds' post' \<longrightarrow> length pre \<le> length pre')"
proof -
  from re_searchc_Some [OF re_sem_semc [OF vs_label_sem] assms] obtain pre w post g where
    h: "text = pre @ w @ post" "m = hd (vs_label_re U (rev pre, w @ post, []))"
      "m = (rev w @ rev pre, post, g)"
    and r: "\<exists>lab col ws ds. w = lab @ col @ ws @ ds \<and> label_word U lab \<and> colon_word col \<and>
        list_all (is_space U) ws \<and> digits_word U 1 10 ds \<and> g = [(2, ds), (1, lab)]"
    and least: "\<forall>pre' w' post' g'. text = pre' @ w' @ post' \<and>
        (\<exists>lab col ws ds. w' = lab @ col @ ws @ ds \<and> label_word U lab \<and> colon_word col \<and>
           list_all (is_space U) ws \<and> digits_word U 1 10 ds \<and> g' = [(2::nat, ds), (1, lab)])
        \<longrightarrow> length pre \<le> length pre'"
    by (elim exE conjE) (rule that, assumption, assumption, assumption, blast, assumption)
  from r obtain lab col ws ds where w: "w = lab @ col @ ws @ ds" "label_word U lab" "colon_word col"
    "list_all (is_space U) ws" "digits_word U 1 10 ds" "g = [(2, ds), (1, lab)]" by blast
  have a: "labelled_digits U text pre ds post"
    unfolding labelled_digits_def using h(1) w by auto
  have b: "group m 2 = Some ds" using h(3) w(6) by (simp add: group_def)
  have c: "length pre \<le> length pre'" if "labelled_digits U text pre' ds' post'" for pre' ds' post'
  proof -
    from that obtain lab' col' ws' where t: "text = pre' @ (lab' @ col' @ ws' @ ds') @ post'"
      "label_word U lab'" "colon_word col'" "list_all (is_space U) ws'" "digits_word U 1 10 ds'"
      unfolding labelled_digits_def by auto
    then have "\<exists>lab col ws ds. lab' @ col' @ ws' @ ds' = lab @ col @ ws @ ds \<and> label_word U lab \<and>
        colon_word col \<and> list_all (is_space U) ws \<and> digits_word U 1 10 ds \<and>
        [(2, ds'), (1, lab')] = [(2::nat, ds), (1, lab)]"
      by blast
    with least [rule_format, of pre' "lab' @ col' @ ws' @ ds'" post' "[(2, ds'), (1, lab')]"] t(1)
    show ?thesis by blast
  qed
  have d: "length ds = 10 \<or> post = [] \<or> \<not> is_digit U (hd post)"
  proof -
    define X where "X = re_seqs [re_group 1 (label_re U), re_opt (re_chr (\<lambda>c. c = 58)),
      re_star (re_chr (is_space U))]"
    define D where "D = re_group 2 (re_rep 1 10 (re_chr (is_digit U)))"
    define st where "st = (rev pre, w @ post, [] :: groups)"
    have eq: "vs_label_re U st = concat (map D (X st))"
      unfolding vs_label_split X_def D_def by (simp add: re_seq_def)
    have "m \<in> set (vs_label_re U st)"
      using re_semI [OF vs_label_sem, where w = w and g = "[]" and g' = g and p = "rev pre"
          and r' = post and U1 = U] r h(3) by (simp add: st_def)
    then have ne: "concat (map D (X st)) \<noteq> []"
      unfolding eq by (metis empty_iff empty_set)
    from hd_concat_map [OF ne] obtain x where x: "x \<in> set (X st)" "D x \<noteq> []"
      "hd (concat (map D (X st))) = hd (D x)" by blast
    obtain px rx gx where xs: "x = (px, rx, gx)" by (cases x) auto
    from group_rep_hd [OF x(2) [unfolded D_def xs]] obtain w' r' where
      w': "hd (D x) = (rev w' @ px, r', (2, w') # gx)" "rx = w' @ r'"
        "length w' = 10 \<or> r' = [] \<or> \<not> is_digit U (hd r')"
      unfolding D_def xs by blast
    have "m = hd (D x)" using h(2) eq x(3) by (simp add: st_def)
    with w'(1) h(3) w(6) have "r' = post" "w' = ds" by simp_all
    with w'(3) show ?thesis by simp
  qed
  from a b c d show ?thesis by blast
qed

lemma vs_label_None:
  "(re_search (vs_label_re U) text = None) = (\<forall>pre ds post. \<not> labelled_digits U text pre ds post)"
  unfolding re_search_None [OF vs_label_sem]
proof (intro iffI allI notI impI)
  fix pre ds post
  assume h: "\<forall>pre w post g. text = pre @ w @ post \<longrightarrow>
      \<not> (\<exists>lab col ws ds. w = lab @ col @ ws @ ds \<and> label_word U lab \<and> colon_word col \<and>
        list_all (is_space U) ws \<and> digits_word U 1 10 ds \<and> g = [(2, ds), (1, lab)])"
    and "labelled_digits U text pre ds post"
  then obtain lab col ws where t: "text = pre @ (lab @ col @ ws @ ds) @ post"
      "label_word U lab" "colon_word col" "list_all (is_space U) ws" "digits_word U 1 10 ds"
    unfolding labelled_digits_def by auto
  from h [rule_format, OF t(1), of "[(2, ds), (1, lab)]"] t(2-5) show False by blast
next
  fix pre w post :: pystr and g :: groups
  assume h: "\<forall>pre ds post. \<not> labelled_digits U text pre ds post" and t: "text = pre @ w @ post"
    and "\<exists>lab col ws ds. w = lab @ col @ ws @ ds \<and> label_word U lab \<and> colon_word col \<and>
        list_all (is_space U) ws \<and> digits_word U 1 10 ds \<and> g = [(2, ds), (1, lab)]"
  then obtain lab col ws ds where "w = lab @ col @ ws @ ds" "label_word U lab" "colon_word col"
    "list_all (is_space U) ws" "digits_word U 1 10 ds" by blast
  with t have "labelled_digits U text pre ds post"
    unfolding labelled_digits_def by auto
  with h show False by blast
qed

lemma is_digit_word: "is_digit U c \<Longrightarrow> is_word U c"
  by (auto simp: is_digit_def is_word_def digit_value_def split: if_splits)

lemma vs_plain_unfold:
  "vs_plain_re U (p, r, g) =
     (if (p \<noteq> [] \<and> is_word U (hd p)) \<noteq> (r \<noteq> [] \<and> is_word U (hd r))
      then concat (map (re_bound U) (re_group 1 (re_rep 10 10 (re_chr (is_digit U))) (p, r, g)))
      else [])"
proof -
  define G where "G = re_group 1 (re_rep 10 10 (re_chr (is_digit U)))"
  have eq: "vs_plain_re U = re_seq (re_bound U) (re_seq G (re_bound U))"
    by (simp add: vs_plain_re_def re_seqs_def re_seq_eps G_def)
  show ?thesis
  proof (cases "(p \<noteq> [] \<and> is_word U (hd p)) \<noteq> (r \<noteq> [] \<and> is_word U (hd r))")
    case True
    then have "re_bound U (p, r, g) = [(p, r, g)]"
      by (simp add: re_bound_def)
    with True show ?thesis
      unfolding eq G_def [symmetric] by (simp add: re_seq_def)
  next
    case False
    then have "re_bound U (p, r, g) = []"
      by (simp add: re_bound_def)
    with False show ?thesis
      unfolding eq by (simp add: re_seq_def)
  qed
qed

lemma vs_plain_semc:
  "re_semc (vs_plain_re U)
     (\<lambda>p w r' g g'. digits_word U 10 10 w \<and> (p = [] \<or> \<not> is_word U (hd p))
        \<and> (r' = [] \<or> \<not> is_word U (hd r')) \<and> g' = (1, w) # g)"
  unfolding re_semc_def
proof (intro allI set_eqI iffI)
  fix p r :: pystr and g :: groups and st' :: mstate
  assume a: "st' \<in> set (vs_plain_re U (p, r, g))"
  then have b1: "(p \<noteq> [] \<and> is_word U (hd p)) \<noteq> (r \<noteq> [] \<and> is_word U (hd r))"
    by (auto simp: vs_plain_unfold split: if_splits)
  with a obtain s where s: "s \<in> set (re_group 1 (re_rep 10 10 (re_chr (is_digit U))) (p, r, g))"
    "st' \<in> set (re_bound U s)"
    by (auto simp: vs_plain_unfold)
  from re_semD [OF re_sem_group_lang [OF digits_lang] s(1)] obtain w r' where
    w: "s = (rev w @ p, r', (1, w) # g)" "r = w @ r'" "digits_word U 10 10 w" by blast
  from w(3) have ne: "w \<noteq> []" and dg: "is_digit U (hd w)" "is_digit U (last w)"
    by (cases w; auto simp: digits_word_def list_all_iff)+
  from s(2) w(1) have st: "st' = s"
    and b2: "(rev w @ p \<noteq> [] \<and> is_word U (hd (rev w @ p))) \<noteq> (r' \<noteq> [] \<and> is_word U (hd r'))"
    by (auto simp: re_bound_def split: if_splits)
  have "hd (rev w @ p) = last w" using ne by (simp add: hd_rev)
  with b2 ne is_digit_word [OF dg(2)] have c2: "r' = [] \<or> \<not> is_word U (hd r')" by auto
  have "hd r = hd w" using w(2) ne by simp
  with b1 w(2) ne is_digit_word [OF dg(1)] have c1: "p = [] \<or> \<not> is_word U (hd p)" by auto
  from st w c1 c2 show "st' \<in> {(rev w @ p, r', g') | w r' g'. r = w @ r' \<and>
      digits_word U 10 10 w \<and> (p = [] \<or> \<not> is_word U (hd p)) \<and>
      (r' = [] \<or> \<not> is_word U (hd r')) \<and> g' = (1, w) # g}"
    by blast
next
  fix p r :: pystr and g :: groups and st' :: mstate
  assume "st' \<in> {(rev w @ p, r', g') | w r' g'. r = w @ r' \<and>
      digits_word U 10 10 w \<and> (p = [] \<or> \<not> is_word U (hd p)) \<and>
      (r' = [] \<or> \<not> is_word U (hd r')) \<and> g' = (1, w) # g}"
  then obtain w r' where w: "st' = (rev w @ p, r', (1, w) # g)" "r = w @ r'"
    "digits_word U 10 10 w" "p = [] \<or> \<not> is_word U (hd p)" "r' = [] \<or> \<not> is_word U (hd r')"
    by blast
  from w(3) have ne: "w \<noteq> []" and dg: "is_digit U (hd w)" "is_digit U (last w)"
    by (cases w; auto simp: digits_word_def list_all_iff)+
  have h1: "hd (rev w @ p) = last w" using ne by (simp add: hd_rev)
  have h2: "hd r = hd w" using w(2) ne by simp
  have b1: "(p \<noteq> [] \<and> is_word U (hd p)) \<noteq> (r \<noteq> [] \<and> is_word U (hd r))"
    using w(2,4) ne h2 is_digit_word [OF dg(1)] by auto
  have b2: "(rev w @ p \<noteq> [] \<and> is_word U (hd (rev w @ p))) \<noteq> (r' \<noteq> [] \<and> is_word U (hd r'))"
    using w(5) ne h1 is_digit_word [OF dg(2)] by auto
  have "(rev w @ p, r', (1, w) # g) \<in> set (re_group 1 (re_rep 10 10 (re_chr (is_digit U))) (p, w @ r', g))"
    by (rule re_semI [OF re_sem_group_lang [OF digits_lang]]) (use w(3) in simp)
  moreover have "st' \<in> set (re_bound U (rev w @ p, r', (1, w) # g))"
    using b2 w(1) by (simp add: re_bound_def)
  ultimately show "st' \<in> set (vs_plain_re U (p, r, g))"
    using b1 w(2) unfolding vs_plain_unfold by auto
qed

lemma vs_plain_Some:
  assumes "re_search (vs_plain_re U) text = Some m"
  shows "\<exists>pre ds. standalone_digits U text pre ds \<and> group m 1 = Some ds
           \<and> (\<forall>pre' ds'. standalone_digits U text pre' ds' \<longrightarrow> length pre \<le> length pre')"
proof -
  from re_searchc_Some [OF vs_plain_semc assms] obtain pre w post g where
    h: "text = pre @ w @ post" "m = (rev w @ rev pre, post, g)"
    and r: "digits_word U 10 10 w \<and> (rev pre = [] \<or> \<not> is_word U (hd (rev pre)))
        \<and> (post = [] \<or> \<not> is_word U (hd post)) \<and> g = [(1, w)]"
    and least: "\<forall>pre' w' post' g'. text = pre' @ w' @ post' \<and>
        (digits_word U 10 10 w' \<and> (rev pre' = [] \<or> \<not> is_word U (hd (rev pre')))
        \<and> (post' = [] \<or> \<not> is_word U (hd post')) \<and> g' = [(1::nat, w')])
        \<longrightarrow> length pre \<le> length pre'"
    by (elim exE conjE) (rule that, assumption, assumption, blast, assumption)
  have a: "standalone_digits U text pre w"
    unfolding standalone_digits_def using h(1) r by (auto simp: hd_rev)
  have b: "group m 1 = Some w" using h(2) r by (simp add: group_def)
  have c: "length pre \<le> length pre'" if "standalone_digits U text pre' ds'" for pre' ds'
  proof -
    from that obtain post' where t: "text = pre' @ ds' @ post'" "digits_word U 10 10 ds'"
      "pre' = [] \<or> \<not> is_word U (last pre')" "post' = [] \<or> \<not> is_word U (hd post')"
      unfolding standalone_digits_def by auto
    then have "digits_word U 10 10 ds' \<and> (rev pre' = [] \<or> \<not> is_word U (hd (rev pre')))
        \<and> (post' = [] \<or> \<not> is_word U (hd post')) \<and> [(1, ds')] = [(1::nat, ds')]"
      by (auto simp: hd_rev)
    with least [rule_format, of pre' ds' post' "[(1, ds')]"] t(1) show ?thesis by blast
  qed
  from a b c show ?thesis by blast
qed

lemma vs_plain_None:
  "(re_search (vs_plain_re U) text = None) = (\<forall>pre ds. \<not> standalone_digits U text pre ds)"
  unfolding re_searchc_None [OF vs_plain_semc]
proof (intro iffI allI notI impI)
  fix pre ds
  assume h: "\<forall>pre w post g. text = pre @ w @ post \<longrightarrow>
      \<not> (digits_word U 10 10 w \<and> (rev pre = [] \<or> \<not> is_word U (hd (rev pre)))
        \<and> (post = [] \<or> \<not> is_word U (hd post)) \<and> g = [(1, w)])"
    and "standalone_digits U text pre ds"
  then obtain post where t: "text = pre @ ds @ post" "digits_word U 10 10 ds"
      "pre = [] \<or> \<not> is_word U (last pre)" "post = [] \<or> \<not> is_word U (hd post)"
    unfolding standalone_digits_def by auto
  from h [rule_format, OF t(1), of "[(1, ds)]"] t(2-4) show False by (auto simp: hd_rev)
next
  fix pre w post :: pystr and g :: groups
  assume h: "\<forall>pre ds. \<not> standalone_digits U text pre ds" and t: "text = pre @ w @ post"
    and "digits_word U 10 10 w \<and> (rev pre = [] \<or> \<not> is_word U (hd (rev pre)))
        \<and> (post = [] \<or> \<not> is_word U (hd post)) \<and> g = [(1, w)]"
  with t have "standalone_digits U text pre w"
    unfolding standalone_digits_def by (auto simp: hd_rev)
  with h show False by blast
qed

lemma vs_spec_digits: "vs_spec U text v \<Longrightarrow> list_all (is_digit U) v"
  unfolding vs_spec_def labelled_digits_def standalone_digits_def digits_word_def
  by (auto split: if_splits)

lemma parse_vs_result: "\<exists>v. parse_vs U text = Some v \<and> vs_spec U text v"
proof (cases "re_search (vs_label_re U) text")
  case (Some m)
  from vs_label_Some [OF Some] obtain pre ds post where
    h: "labelled_digits U text pre ds post" "group m 2 = Some ds"
      "length ds = 10 \<or> post = [] \<or> \<not> is_digit U (hd post)"
      "\<forall>pre' ds' post'. labelled_digits U text pre' ds' post' \<longrightarrow> length pre \<le> length pre'"
    by blast
  from h(1) have ne: "ds \<noteq> []" by (auto simp: labelled_digits_def digits_word_def)
  have "parse_vs U text = Some ds"
    using Some h(2) ne by (simp add: parse_vs_def)
  moreover have "vs_spec U text ds"
    unfolding vs_spec_def using h(1,3,4) by auto
  ultimately show ?thesis by blast
next
  case None
  note n1 = None
  then have no1: "\<not> (\<exists>pre ds post. labelled_digits U text pre ds post)"
    by (simp add: vs_label_None)
  show ?thesis
  proof (cases "re_search (vs_plain_re U) text")
    case (Some m)
    from vs_plain_Some [OF Some] obtain pre ds where
      h: "standalone_digits U text pre ds" "group m 1 = Some ds"
        "\<forall>pre' ds'. standalone_digits U text pre' ds' \<longrightarrow> length pre \<le> length pre'"
      by blast
    have "parse_vs U text = Some ds"
      using n1 Some h(2) by (simp add: parse_vs_def)
    moreover have "vs_spec U text ds"
      unfolding vs_spec_def using no1 h(1,3) by auto
    ultimately show ?thesis by blast
  next
    case None
    then have no2: "\<not> (\<exists>pre ds. standalone_digits U text pre ds)"
      by (simp add: vs_plain_None)
    have "parse_vs U text = Some []"
      using n1 None by (simp add: parse_vs_def)
    moreover have "vs_spec U text []"
      unfolding vs_spec_def using no1 no2 by simp
    ultimately show ?thesis by blast
  qed
qed

lemma digit09_lang:
  "re_lang (re_rep n n digit09) (\<lambda>w. length w = n \<and> list_all is_ascii_digit w)"
  unfolding digit09_def by (rule re_lang_cong [OF re_lang_rep_chr]) auto

lemma groups_lang:
  "re_lang (re_seqs (concat (replicate n [re_opt (re_chr (is_space U)), re_rep 4 4 digit09])))
     (groups_word U n)"
proof (induction n)
  case 0
  show ?case by (simp, rule re_lang_cong [OF re_lang_seqs_Nil]) simp
next
  case (Suc n)
  show ?case
    by (simp, rule re_lang_cong [OF re_lang_seqs_Cons [OF re_lang_blank
            re_lang_seqs_Cons [OF digit09_lang Suc]]]) auto
qed

lemma iban_body_eq:
  "iban_body U cc =
     re_seqs (re_str (ascii cc) # re_rep 2 2 digit09 #
       concat (replicate 5 [re_opt (re_chr (is_space U)), re_rep 4 4 digit09]))"
  by (simp add: iban_body_def eval_nat_numeral)

lemma iban_body_lang:
  "re_lang (iban_body U cc)
     (\<lambda>w. \<exists>d v. w = ascii cc @ d @ v \<and> length d = 2 \<and> list_all is_ascii_digit d \<and> groups_word U 5 v)"
  unfolding iban_body_eq
  by (rule re_lang_cong [OF re_lang_seqs_Cons [OF re_lang_str
          re_lang_seqs_Cons [OF digit09_lang groups_lang]]]) auto

lemma iban_sem: "re_sem (iban_re U) (\<lambda>w g g'. iban_word U w \<and> g' = (1, w) # g)"
  unfolding iban_re_def
  by (rule re_sem_cong [OF re_sem_group_lang [OF re_lang_alt [OF iban_body_lang iban_body_lang]]])
    (auto simp: iban_word_def)

lemma iban_None:
  "(re_search (iban_re U) text = None) = (\<forall>pre w. \<not> iban_at U text pre w)"
  unfolding re_search_None [OF iban_sem] iban_at_def by blast

lemma iban_Some:
  assumes "re_search (iban_re U) text = Some m"
  shows "\<exists>pre w. iban_at U text pre w \<and> group m 1 = Some w
           \<and> (\<forall>pre' w'. iban_at U text pre' w' \<longrightarrow> length pre \<le> length pre')"
proof -
  from re_search_Some [OF iban_sem assms] obtain pre w post g where
    h: "text = pre @ w @ post" "m = (rev w @ rev pre, post, g)"
    and r: "iban_word U w \<and> g = [(1, w)]"
    and least: "\<forall>pre' w' post' g'. text = pre' @ w' @ post' \<and>
        (iban_word U w' \<and> g' = [(1::nat, w')]) \<longrightarrow> length pre \<le> length pre'"
    by (elim exE conjE) (rule that, assumption, assumption, blast, assumption)
  have a: "iban_at U text pre w" unfolding iban_at_def using h(1) r by auto
  have b: "group m 1 = Some w" using h(2) r by (simp add: group_def)
  have c: "length pre \<le> length pre'" if "iban_at U text pre' w'" for pre' w'
  proof -
    from that obtain post' where t: "text = pre' @ w' @ post'" "iban_word U w'"
      unfolding iban_at_def by auto
    with least [rule_format, of pre' w' post' "[(1, w')]"] show ?thesis by blast
  qed
  from a b c show ?thesis by blast
qed

lemma parse_iban_result: "\<exists>s. parse_iban U text = Inr s \<and> iban_spec U text s"
proof (cases "re_search (iban_re U) text")
  case None
  then have "\<not> (\<exists>pre w. iban_at U text pre w)" by (simp add: iban_None)
  with None show ?thesis by (simp add: parse_iban_def iban_spec_def)
next
  case (Some m)
  from iban_Some [OF Some] obtain pre w where
    h: "iban_at U text pre w" "group m 1 = Some w"
      "\<forall>pre' w'. iban_at U text pre' w' \<longrightarrow> length pre \<le> length pre'" by blast
  have "parse_iban U text = Inr (replace_char 32 [] w)"
    using Some h(2) by (simp add: parse_iban_def group_str_def)
  moreover have "iban_spec U text (replace_char 32 [] w)"
    unfolding iban_spec_def using h(1,3) by auto
  ultimately show ?thesis by blast
qed

lemma parse_text_result:
  "\<exists>s x v. parse_text U text =
       Inr \<lparr>r_iban = s, r_amount = x, r_currency = parse_currency U text s, r_vs = Some v\<rparr>
     \<and> iban_spec U text s \<and> 0 \<le> x \<and> amount_spec U text x \<and> vs_spec U text v"
proof -
  from parse_iban_result obtain s where s: "parse_iban U text = Inr s" "iban_spec U text s"
    by blast
  from parse_amount_result obtain x where x: "parse_amount U text = Inr x" "0 \<le> x"
    "amount_spec U text x" by blast
  from parse_vs_result obtain v where v: "parse_vs U text = Some v" "vs_spec U text v"
    by blast
  from s x v show ?thesis by (simp add: parse_text_def)
qed

lemma upper_char_cases:
  assumes "tables_upper_ok U"
  shows "(\<exists>x. upper_char U c = [x]) \<or>
         (upper_char U c \<noteq> [] \<and> list_all (\<lambda>x. \<not> czk_letter x) (upper_char U c))"
proof (cases "c < 128 \<or> c = 268 \<or> c = 269")
  case True
  then show ?thesis using assms by (auto simp: upper_char_def tables_upper_ok_def)
next
  case False
  then have "128 \<le> c \<and> c \<noteq> 268 \<and> c \<noteq> 269" by simp
  with assms have "u_upper U c \<noteq> []"
    "list_all (\<lambda>x. x \<noteq> 67 \<and> x \<noteq> 90 \<and> x \<noteq> 75 \<and> x \<noteq> 268) (u_upper U c)"
    unfolding tables_upper_ok_def by blast+
  moreover have "upper_char U c = u_upper U c" using False by (simp add: upper_char_def)
  ultimately show ?thesis by (simp add: czk_letter_def list_all_iff)
qed

lemma upper_char_letter:
  assumes "tables_upper_ok U" "czk_letter L"
  shows "(upper_char U x = [L]) = same_letter L x"
proof (cases "x < 128")
  case True
  with assms(2) show ?thesis
    unfolding upper_char_def same_letter_def czk_letter_def is_ascii_lower_def is_ascii_upper_def
    by auto
next
  case False
  show ?thesis
  proof (cases "x = 268 \<or> x = 269")
    case True
    with False assms show ?thesis
      unfolding upper_char_def same_letter_def czk_letter_def tables_upper_ok_def is_ascii_upper_def
      by auto
  next
    case f2: False
    with False have "128 \<le> x \<and> x \<noteq> 268 \<and> x \<noteq> 269" by simp
    with assms(1) have "list_all (\<lambda>x. x \<noteq> 67 \<and> x \<noteq> 90 \<and> x \<noteq> 75 \<and> x \<noteq> 268) (u_upper U x)"
      unfolding tables_upper_ok_def by blast
    then have "u_upper U x \<noteq> [L]" using assms(2) by (auto simp: czk_letter_def)
    moreover have "\<not> same_letter L x"
      using False f2 assms(2) by (auto simp: same_letter_def czk_letter_def is_ascii_upper_def)
    ultimately show ?thesis using False by (simp add: upper_char_def)
  qed
qed

lemma py_upper_Cons: "py_upper U (c # cs) = upper_char U c @ py_upper U cs"
  by (simp add: py_upper_def)

lemma py_upper_append: "py_upper U (a @ b) = py_upper U a @ py_upper U b"
  by (simp add: py_upper_def)

lemma upper_prefix:
  assumes "tables_upper_ok U"
  shows "list_all czk_letter pat \<Longrightarrow> prefix pat (py_upper U text) \<Longrightarrow>
           \<exists>w post. text = w @ post \<and> list_all2 (\<lambda>L x. upper_char U x = [L]) pat w"
proof (induction pat arbitrary: "text")
  case Nil
  then show ?case by simp
next
  case (Cons p ps)
  show ?case
  proof (cases "text")
    case Nil
    with Cons.prems show ?thesis by (simp add: py_upper_def)
  next
    case (Cons c cs)
    from upper_char_cases [OF assms, of c] show ?thesis
    proof
      assume "\<exists>x. upper_char U c = [x]"
      then obtain x where x: "upper_char U c = [x]" by blast
      with Cons.prems(2) Cons have "x = p" "prefix ps (py_upper U cs)"
        by (simp_all add: py_upper_Cons)
      from Cons.IH [OF _ this(2)] Cons.prems(1) obtain w post where
        "cs = w @ post" "list_all2 (\<lambda>L x. upper_char U x = [L]) ps w" by auto
      with x \<open>x = p\<close> Cons show ?thesis
        by (intro exI [of _ "c # w"] exI [of _ post]) simp
    next
      assume f: "upper_char U c \<noteq> [] \<and> list_all (\<lambda>x. \<not> czk_letter x) (upper_char U c)"
      then obtain y ys where y: "upper_char U c = y # ys" "\<not> czk_letter y"
        by (cases "upper_char U c") auto
      with Cons.prems Cons have False by (simp add: py_upper_Cons)
      then show ?thesis ..
    qed
  qed
qed

lemma sublist_skip:
  "list_all (\<lambda>x. \<not> czk_letter x) F \<Longrightarrow> list_all czk_letter pat \<Longrightarrow> pat \<noteq> [] \<Longrightarrow>
     sublist pat (F @ R) \<Longrightarrow> sublist pat R"
proof (induction F)
  case Nil
  then show ?case by simp
next
  case (Cons y ys)
  from Cons.prems(4) have "prefix pat (y # ys @ R) \<or> sublist pat (ys @ R)"
    by (simp add: sublist_Cons_right)
  then show ?case
  proof
    assume "prefix pat (y # ys @ R)"
    with Cons.prems(1,2,3) have False by (cases pat) auto
    then show ?thesis ..
  next
    assume "sublist pat (ys @ R)"
    with Cons show ?thesis by simp
  qed
qed

lemma upper_sublist:
  assumes "tables_upper_ok U" "list_all czk_letter pat" "pat \<noteq> []"
  shows "sublist pat (py_upper U text) = ci_contains pat text"
proof
  assume "sublist pat (py_upper U text)"
  then have "\<exists>pre w post. text = pre @ w @ post \<and> list_all2 (\<lambda>L x. upper_char U x = [L]) pat w"
  proof (induction "text")
    case Nil
    with assms(3) show ?case by (simp add: py_upper_def)
  next
    case (Cons c cs)
    have "prefix pat (py_upper U (c # cs)) \<or> sublist pat (py_upper U cs)"
    proof -
      from upper_char_cases [OF assms(1), of c] show ?thesis
      proof
        assume "\<exists>x. upper_char U c = [x]"
        then obtain x where "upper_char U c = [x]" by blast
        with Cons.prems show ?thesis by (simp add: py_upper_Cons sublist_Cons_right)
      next
        assume "upper_char U c \<noteq> [] \<and> list_all (\<lambda>x. \<not> czk_letter x) (upper_char U c)"
        with Cons.prems sublist_skip [OF _ assms(2,3), of "upper_char U c" "py_upper U cs"]
        show ?thesis by (simp add: py_upper_Cons)
      qed
    qed
    then show ?case
    proof
      assume "prefix pat (py_upper U (c # cs))"
      from upper_prefix [OF assms(1,2) this] obtain w post where
        "c # cs = [] @ w @ post" "list_all2 (\<lambda>L x. upper_char U x = [L]) pat w" by auto
      then show ?thesis by blast
    next
      assume "sublist pat (py_upper U cs)"
      from Cons.IH [OF this] obtain pre w post where
        "c # cs = (c # pre) @ w @ post" "list_all2 (\<lambda>L x. upper_char U x = [L]) pat w" by auto
      then show ?thesis by blast
    qed
  qed
  then obtain pre w post where t: "text = pre @ w @ post"
    and l: "list_all2 (\<lambda>L x. upper_char U x = [L]) pat w" by blast
  from l assms(2) have "list_all2 same_letter pat w"
  proof (induction rule: list_all2_induct)
    case Nil
    then show ?case by simp
  next
    case (Cons L Ls x xs)
    then show ?case using upper_char_letter [OF assms(1), of L x] by simp
  qed
  with t show "ci_contains pat text" unfolding ci_contains_def by blast
next
  assume "ci_contains pat text"
  then obtain pre w post where t: "text = pre @ w @ post" and l: "list_all2 same_letter pat w"
    unfolding ci_contains_def by blast
  from l assms(2) have "py_upper U w = pat"
  proof (induction rule: list_all2_induct)
    case Nil
    then show ?case by (simp add: py_upper_def)
  next
    case (Cons L Ls x xs)
    then show ?case using upper_char_letter [OF assms(1), of L x] by (simp add: py_upper_Cons)
  qed
  with t have "py_upper U text = py_upper U pre @ pat @ py_upper U post"
    by (simp add: py_upper_append)
  then show "sublist pat (py_upper U text)" unfolding sublist_def by blast
qed

lemma parse_currency_spec:
  assumes "tables_upper_ok U"
  shows "parse_currency U text s =
           (if ci_contains (ascii ''CZK'') text \<or> ci_contains (ascii ''K'' @ [268]) text
               \<or> prefix (ascii ''CZ'') s
            then ascii ''CZK'' else ascii ''EUR'')"
proof -
  have a: "sublist (ascii ''CZK'') (py_upper U text) = ci_contains (ascii ''CZK'') text"
    by (rule upper_sublist [OF assms]) (simp_all add: ascii_def czk_letter_def)
  have b: "sublist (ascii ''K'' @ [268]) (py_upper U text) = ci_contains (ascii ''K'' @ [268]) text"
    by (rule upper_sublist [OF assms]) (simp_all add: ascii_def czk_letter_def)
  have c: "(s \<noteq> [] \<and> prefix (ascii ''CZ'') s) = prefix (ascii ''CZ'') s"
    by (auto simp: ascii_def)
  show ?thesis unfolding parse_currency_def a b c ..
qed

lemma heads_seq: "heads a st x \<Longrightarrow> heads b x y \<Longrightarrow> heads (re_seq a b) st y"
  unfolding heads_def re_seq_def by auto

lemma heads_eps: "heads re_eps st st"
  unfolding heads_def re_eps_def by simp

lemma heads_singleton: "set (a st) = {x} \<Longrightarrow> heads a st x"
  unfolding heads_def by (cases "a st") auto

lemma heads_group:
  "heads a (p, r, g) (rev w @ p, r', g') \<Longrightarrow> heads (re_group k a) (p, r, g) (rev w @ p, r', (k, w) # g')"
  unfolding heads_def re_group_def by auto

lemma rep_chr_greedy:
  "list_all P w \<Longrightarrow> length w \<le> n \<Longrightarrow> m \<le> length w \<Longrightarrow> (length w = n \<or> r = [] \<or> \<not> P (hd r)) \<Longrightarrow>
     heads (re_rep m n (re_chr P)) (p, w @ r, g) (rev w @ p, r, g)"
proof (induction w arbitrary: m n p)
  case Nil
  show ?case
  proof (cases n)
    case 0
    with Nil show ?thesis by (simp add: heads_def)
  next
    case (Suc n')
    with Nil have "re_chr P (p, r, g) = []"
      by (cases r) (auto simp: re_chr_def)
    with Nil Suc show ?thesis by (simp add: heads_def)
  qed
next
  case (Cons c w)
  then obtain n' where n: "n = Suc n'" by (cases n) auto
  from Cons.prems n have "heads (re_rep (m - 1) n' (re_chr P)) (c # p, w @ r, g) (rev w @ c # p, r, g)"
    by (intro Cons.IH) auto
  with Cons.prems(1) n show ?case
    by (auto simp: heads_def re_chr_def)
qed

lemma star_chr_greedy:
  assumes "list_all P w" "r = [] \<or> \<not> P (hd r)"
  shows "heads (re_star (re_chr P)) (p, w @ r, g) (rev w @ p, r, g)"
proof -
  have "heads (re_rep 0 (length (w @ r)) (re_chr P)) (p, w @ r, g) (rev w @ p, r, g)"
    by (rule rep_chr_greedy) (use assms in auto)
  then show ?thesis by (simp add: re_star_def heads_def)
qed

lemma lit_ic_s_a: "\<not> (lit_ic U 83 x \<and> lit_ic U 97 x)"
  by (auto simp: lit_ic_def pattern_cased_def pattern_lower_def ignorecase_fixes_def
      is_ascii_upper_def is_ascii_lower_def)

lemma label_second:
  assumes "label_word U w"
  shows "(length w = 2 \<and> lit_ic U 83 (w ! 1)) \<or> (length w = 17 \<and> lit_ic U 97 (w ! 1))"
proof -
  have n: "ascii ''VS'' ! 1 = 83" "ascii ''Variabilny symbol'' ! 1 = 97"
    "(ascii ''Variabiln'' @ [253] @ ascii '' symbol'') ! 1 = 97"
    "length (ascii ''VS'') = 2" "length (ascii ''Variabilny symbol'') = 17"
    "length (ascii ''Variabiln'' @ [253] @ ascii '' symbol'') = 17"
    by (simp_all add: ascii_def)
  from assms consider "list_all2 (lit_ic U) (ascii ''VS'') w"
    | "list_all2 (lit_ic U) (ascii ''Variabilny symbol'') w"
    | "list_all2 (lit_ic U) (ascii ''Variabiln'' @ [253] @ ascii '' symbol'') w"
    unfolding label_word_def by blast
  then show ?thesis
  proof cases
    case 1
    then have "length w = 2" "lit_ic U (ascii ''VS'' ! 1) (w ! 1)"
      using n(4) by (auto simp: list_all2_conv_all_nth)
    then show ?thesis using n(1) by simp
  next
    case 2
    then have "length w = 17" "lit_ic U (ascii ''Variabilny symbol'' ! 1) (w ! 1)"
      using n(5) by (auto simp: list_all2_conv_all_nth)
    then show ?thesis using n(2) by simp
  next
    case 3
    then have "length w = 17"
      "lit_ic U ((ascii ''Variabiln'' @ [253] @ ascii '' symbol'') ! 1) (w ! 1)"
      using n(6) by (auto simp: list_all2_conv_all_nth)
    then show ?thesis using n(3) by simp
  qed
qed

lemma label_unique:
  assumes "label_word U w" "label_word U lab" "w @ r' = lab @ R"
  shows "w = lab"
proof (cases "length w = length lab")
  case True
  with assms(3) show ?thesis by simp
next
  case False
  have "w ! 1 = (w @ r') ! 1" "lab ! 1 = (lab @ R) ! 1"
    using label_second [OF assms(1)] label_second [OF assms(2)] by (auto simp: nth_append)
  with assms(3) have "w ! 1 = lab ! 1" by simp
  with False label_second [OF assms(1)] label_second [OF assms(2)] lit_ic_s_a [of U "w ! 1"]
  show ?thesis by auto
qed

lemma label_group_heads:
  assumes "label_word U lab"
  shows "heads (re_group 1 (label_re U)) (p, lab @ R, g) (rev lab @ p, R, (1, lab) # g)"
proof (rule heads_singleton)
  show "set (re_group 1 (label_re U) (p, lab @ R, g)) = {(rev lab @ p, R, (1, lab) # g)}"
  proof (intro set_eqI iffI)
    fix st assume "st \<in> set (re_group 1 (label_re U) (p, lab @ R, g))"
    from re_semD [OF re_sem_group_lang [OF label_lang] this] obtain w r' where
      w: "st = (rev w @ p, r', (1, w) # g)" "lab @ R = w @ r'" "label_word U w" by blast
    from label_unique [OF w(3) assms w(2) [symmetric]] have "w = lab" .
    with w show "st \<in> {(rev lab @ p, R, (1, lab) # g)}" by simp
  next
    fix st assume "st \<in> {(rev lab @ p, R, (1, lab) # g)}"
    then have "st = (rev lab @ p, R, (1, lab) # g)" by simp
    moreover have "(rev lab @ p, R, (1, lab) # g) \<in> set (re_group 1 (label_re U) (p, lab @ R, g))"
      by (rule re_semI [OF re_sem_group_lang [OF label_lang]]) (use assms in simp)
    ultimately show "st \<in> set (re_group 1 (label_re U) (p, lab @ R, g))" by simp
  qed
qed

lemma is_digit_not_colon: "is_digit U c \<Longrightarrow> c \<noteq> 58"
  by (auto simp: is_digit_def digit_value_def is_ascii_digit_def split: if_splits)

lemma is_space_not_colon: "is_space U c \<Longrightarrow> c \<noteq> 58"
  by (auto simp: is_space_def split: if_splits)

lemma colon_heads:
  assumes "colon_word col" "R = [] \<or> hd R \<noteq> 58"
  shows "heads (re_opt (re_chr (\<lambda>c. c = 58))) (p, col @ R, g) (rev col @ p, R, g)"
proof (cases "col = []")
  case True
  with assms(2) show ?thesis
    by (cases R) (auto simp: heads_def re_opt_def re_chr_def)
next
  case False
  with assms(1) have "col = [58]" by (simp add: colon_word_def)
  then show ?thesis by (simp add: heads_def re_opt_def re_chr_def)
qed

lemma search_from_skip:
  assumes "\<And>c p r. c \<in> set pre \<Longrightarrow> a (p, c # r, []) = []"
  shows "search_from a p (pre @ r) = search_from a (rev pre @ p) r"
  using assms
proof (induction pre arbitrary: p)
  case Nil
  show ?case by simp
next
  case (Cons c pre)
  have "a (p, c # pre @ r, []) = []" by (rule Cons.prems) simp
  moreover have "search_from a (c # p) (pre @ r) = search_from a (rev pre @ c # p) r"
    by (rule Cons.IH) (simp add: Cons.prems)
  ultimately show ?case by simp
qed

lemma search_from_hit: "heads a (p, r, []) x \<Longrightarrow> search_from a p r = Some x"
  by (cases r) (auto simp: heads_def)

lemma vs_label_no_v: "\<not> lit_ic U 86 c \<Longrightarrow> vs_label_re U (p, c # r, g) = []"
  by (simp add: vs_label_re_def label_re_def re_str_ic_def re_seqs_def re_seq_def re_alt_def
      re_group_def re_chr_def ascii_def)

lemma search_from_skip_at:
  assumes "\<And>p1 c p2. pre = p1 @ c # p2 \<Longrightarrow> a (rev p1 @ p, c # p2 @ r, []) = []"
  shows "search_from a p (pre @ r) = search_from a (rev pre @ p) r"
  using assms
proof (induction pre arbitrary: p)
  case Nil
  show ?case by simp
next
  case (Cons c pre)
  have "a (rev [] @ p, c # pre @ r, []) = []"
    by (rule Cons.prems) simp
  then have e: "a (p, c # pre @ r, []) = []" by simp
  have "search_from a (c # p) (pre @ r) = search_from a (rev pre @ c # p) r"
  proof (rule Cons.IH)
    fix p1 :: pystr and c' :: pychar and p2 :: pystr
    assume "pre = p1 @ c' # p2"
    then have "c # pre = (c # p1) @ c' # p2" by simp
    from Cons.prems [OF this] show "a (rev p1 @ c # p, c' # p2 @ r, []) = []" by simp
  qed
  with e show ?case by simp
qed

lemma vs_label_at:
  assumes "vs_label_re U (rev p1, r, []) \<noteq> []"
  shows "\<exists>ds post. labelled_digits U (p1 @ r) p1 ds post"
proof -
  from assms obtain st' where "st' \<in> set (vs_label_re U (rev p1, r, []))"
    by (cases "vs_label_re U (rev p1, r, [])") auto
  from re_semD [OF vs_label_sem this] obtain w r' lab col ws ds where
    "r = w @ r'" "w = lab @ col @ ws @ ds" "label_word U lab" "colon_word col"
    "list_all (is_space U) ws" "digits_word U 1 10 ds"
    by blast
  then have "labelled_digits U (p1 @ r) p1 ds r'"
    unfolding labelled_digits_def by auto
  then show ?thesis by blast
qed

lemma label_word_first:
  assumes "label_word U lab"
  shows "\<exists>l ls. lab = l # ls \<and> lit_ic U 86 l"
  using assms unfolding label_word_def
  by (auto simp: ascii_def list_all2_Cons1)

lemma no_label_before:
  assumes "list_all (\<lambda>c. \<not> lit_ic U 86 c) pre" "text = pre @ rest"
    and "labelled_digits U text pre' ds' post'"
  shows "length pre \<le> length pre'"
proof (rule ccontr)
  assume "\<not> length pre \<le> length pre'"
  then have lt: "length pre' < length pre" by simp
  from assms(3) obtain lab col ws where
    t: "text = pre' @ lab @ col @ ws @ ds' @ post'" and "label_word U lab"
    unfolding labelled_digits_def by blast
  from label_word_first [OF this(2)] obtain l ls where l: "lab = l # ls" "lit_ic U 86 l"
    by blast
  from t l(1) have "text ! length pre' = l"
    by (simp add: nth_append)
  moreover from assms(2) lt have "text ! length pre' = pre ! length pre'"
    by (simp add: nth_append)
  ultimately have "l \<in> set pre"
    using lt by (metis nth_mem)
  with assms(1) l(2) show False
    by (simp add: list_all_iff)
qed

lemma labelled_run:
  assumes "text = pre @ lab @ col @ ws @ ds @ post"
    and "\<forall>pre' ds' post'. labelled_digits U text pre' ds' post' \<longrightarrow> length pre \<le> length pre'"
    and "label_word U lab" "colon_word col" "list_all (is_space U) ws"
    and "list_all (is_digit U) ds" "10 < length ds" "\<not> is_space U (hd ds)"
  shows "parse_vs U text = Some (take 10 ds)"
proof -
  from assms(7) obtain d ds' where ds: "ds = d # ds'" by (cases ds) auto
  define R1 where "R1 = col @ ws @ ds @ post"
  define R2 where "R2 = ws @ ds @ post"
  define R3 where "R3 = drop 10 ds @ post"
  define p0 where "p0 = rev pre"
  have h1: "heads (re_group 1 (label_re U)) (p0, lab @ R1, []) (rev lab @ p0, R1, [(1, lab)])"
    by (rule label_group_heads [OF assms(3)])
  have "R2 = [] \<or> hd R2 \<noteq> 58"
  proof (cases ws)
    case Nil
    with assms(6) ds show ?thesis by (auto simp: R2_def dest: is_digit_not_colon)
  next
    case (Cons s ws')
    with assms(5) show ?thesis by (auto simp: R2_def dest: is_space_not_colon)
  qed
  then have h2: "heads (re_opt (re_chr (\<lambda>c. c = 58))) (rev lab @ p0, R1, [(1, lab)])
      (rev col @ rev lab @ p0, R2, [(1, lab)])"
    unfolding R1_def R2_def [symmetric] by (rule colon_heads [OF assms(4)])
  have h3: "heads (re_star (re_chr (is_space U))) (rev col @ rev lab @ p0, R2, [(1, lab)])
      (rev ws @ rev col @ rev lab @ p0, ds @ post, [(1, lab)])"
    unfolding R2_def by (rule star_chr_greedy [OF assms(5)]) (use assms(8) ds in simp)
  have t: "ds @ post = take 10 ds @ R3" by (simp add: R3_def)
  have "heads (re_rep 1 10 (re_chr (is_digit U))) (rev ws @ rev col @ rev lab @ p0, take 10 ds @ R3, [(1, lab)])
      (rev (take 10 ds) @ rev ws @ rev col @ rev lab @ p0, R3, [(1, lab)])"
    by (rule rep_chr_greedy) (use assms(6,7) in \<open>auto simp: list_all_iff dest: in_set_takeD\<close>)
  then have h4: "heads (re_group 2 (re_rep 1 10 (re_chr (is_digit U))))
      (rev ws @ rev col @ rev lab @ p0, ds @ post, [(1, lab)])
      (rev (take 10 ds) @ rev ws @ rev col @ rev lab @ p0, R3, [(2, take 10 ds), (1, lab)])"
    unfolding t by (rule heads_group)
  have "heads (vs_label_re U) (p0, lab @ R1, [])
      (rev (take 10 ds) @ rev ws @ rev col @ rev lab @ p0, R3, [(2, take 10 ds), (1, lab)])"
    unfolding vs_label_re_def re_seqs_def foldr.simps o_apply id_apply
    by (intro heads_seq [OF h1] heads_seq [OF h2] heads_seq [OF h3] heads_seq [OF h4] heads_eps)
  then have "search_from (vs_label_re U) p0 (lab @ R1) =
      Some (rev (take 10 ds) @ rev ws @ rev col @ rev lab @ p0, R3, [(2, take 10 ds), (1, lab)])"
    by (rule search_from_hit)
  moreover have "search_from (vs_label_re U) [] (pre @ lab @ R1) =
      search_from (vs_label_re U) (rev pre @ []) (lab @ R1)"
  proof (rule search_from_skip_at)
    fix p1 :: pystr and c :: pychar and p2 :: pystr
    assume s: "pre = p1 @ c # p2"
    show "vs_label_re U (rev p1 @ [], c # p2 @ lab @ R1, []) = []"
    proof (rule ccontr)
      assume "vs_label_re U (rev p1 @ [], c # p2 @ lab @ R1, []) \<noteq> []"
      then have "vs_label_re U (rev p1, c # p2 @ lab @ R1, []) \<noteq> []" by simp
      from vs_label_at [OF this] obtain ds' post' where
        "labelled_digits U (p1 @ c # p2 @ lab @ R1) p1 ds' post'" by blast
      moreover have "text = p1 @ c # p2 @ lab @ R1"
        using assms(1) s by (simp add: R1_def)
      ultimately have "length pre \<le> length p1"
        using assms(2) by blast
      with s show False by simp
    qed
  qed
  ultimately have "re_search (vs_label_re U) text =
      Some (rev (take 10 ds) @ rev ws @ rev col @ rev lab @ p0, R3, [(2, take 10 ds), (1, lab)])"
    by (simp add: re_search_def assms(1) R1_def p0_def)
  then show ?thesis using assms(7)
    by (auto simp: parse_vs_def group_def)
qed

section \<open>Running the matcher\<close>

text \<open>
  To run a search on a concrete text the combinators are unfolded only where they are
  applied to a state, so that the part of a pattern that a failed attempt never reaches
  is never looked at.
\<close>

lemma re_eps_app: "re_eps st = [st]"
  by (simp add: re_eps_def)

lemma re_chr_Nil: "re_chr P (p, [], g) = []"
  by (simp add: re_chr_def)

lemma re_chr_Cons: "re_chr P (p, c # cs, g) = (if P c then [(c # p, cs, g)] else [])"
  by (simp add: re_chr_def)

lemma re_seq_app: "re_seq a b st = concat (map b (a st))"
  by (simp add: re_seq_def)

lemma re_alt_app: "re_alt a b st = a st @ b st"
  by (simp add: re_alt_def)

lemma re_opt_app: "re_opt a st = a st @ [st]"
  by (simp add: re_opt_def)

lemma re_star_app: "re_star a (p, r, g) = re_rep 0 (length r) a (p, r, g)"
  by (simp add: re_star_def)

lemma re_rep_numeral:
  "re_rep m (numeral k) a st =
     concat (map (re_rep (m - 1) (pred_numeral k) a) (a st)) @ (if m = 0 then [st] else [])"
  by (simp add: numeral_eq_Suc)

lemma re_group_app:
  "re_group k a (p, r, g) =
     map (\<lambda>(p', r', g'). (p', r', (k, rev (take (length p' - length p) p')) # g')) (a (p, r, g))"
  by (simp add: re_group_def)

lemma re_bound_app:
  "re_bound U (p, r, g) =
     (if (p \<noteq> [] \<and> is_word U (hd p)) \<noteq> (r \<noteq> [] \<and> is_word U (hd r)) then [(p, r, g)] else [])"
  by (simp add: re_bound_def)

lemma re_seqs_Nil: "re_seqs [] = re_eps"
  by (simp add: re_seqs_def)

lemma re_seqs_Cons: "re_seqs (a # rs) = re_seq a (re_seqs rs)"
  by (simp add: re_seqs_def)

lemma re_alts_Cons: "re_alts (a # rs) st = a st @ re_alts rs st"
  by (simp add: re_alts_def re_alt_def)

lemma re_alts_Nil: "re_alts [] st = []"
  by (simp add: re_alts_def)

lemma re_str_Nil: "re_str [] = re_eps"
  by (simp add: re_str_def re_seqs_def)

lemma re_str_Cons: "re_str (c # s) = re_seq (re_chr (\<lambda>x. x = c)) (re_str s)"
  by (simp add: re_str_def re_seqs_def)

lemma re_str_ic_Nil: "re_str_ic U [] = re_eps"
  by (simp add: re_str_ic_def re_seqs_def)

lemma re_str_ic_Cons: "re_str_ic U (c # s) = re_seq (re_chr (lit_ic U c)) (re_str_ic U s)"
  by (simp add: re_str_ic_def re_seqs_def)

lemma group_app: "group (p, r, g) k = map_of g k"
  by (simp add: group_def)

lemma iban_re_app: "iban_re U st = re_group 1 (re_alt (iban_body U ''SK'') (iban_body U ''CZ'')) st"
  by (simp add: iban_re_def)

lemma iban_body_app:
  "iban_body U cc st =
     re_seqs [re_str (ascii cc), re_rep 2 2 digit09,
              re_opt (re_chr (is_space U)), re_rep 4 4 digit09,
              re_opt (re_chr (is_space U)), re_rep 4 4 digit09,
              re_opt (re_chr (is_space U)), re_rep 4 4 digit09,
              re_opt (re_chr (is_space U)), re_rep 4 4 digit09,
              re_opt (re_chr (is_space U)), re_rep 4 4 digit09] st"
  by (simp add: iban_body_def)

lemma digit09_Nil: "digit09 (p, [], g) = []"
  by (simp add: digit09_def re_chr_def)

lemma digit09_Cons: "digit09 (p, c # cs, g) = (if is_ascii_digit c then [(c # p, cs, g)] else [])"
  by (simp add: digit09_def re_chr_def)

lemma number_re_app:
  "number_re U st =
     re_seqs [re_rep 1 10 (re_chr (is_digit U)), re_chr (\<lambda>c. c = 44 \<or> c = 46),
              re_rep 2 2 (re_chr (is_digit U))] st"
  by (simp add: number_re_def)

lemma marker_re_app:
  "marker_re U st =
     re_alts [re_str_ic U (ascii ''EUR''), re_str_ic U [8364],
              re_str_ic U (ascii ''K'' @ [269]), re_str_ic U (ascii ''CZK'')] st"
  by (simp add: marker_re_def)

lemma amount_marker_re_app:
  "amount_marker_re U st =
     re_seqs [re_group 1 (number_re U), re_opt (re_chr (is_space U)), re_group 2 (marker_re U)] st"
  by (simp add: amount_marker_re_def)

lemma marker_amount_re_app:
  "marker_amount_re U st =
     re_seqs [re_group 1 (marker_re U), re_opt (re_chr (is_space U)), re_group 2 (number_re U)] st"
  by (simp add: marker_amount_re_def)

lemma label_re_app:
  "label_re U st =
     re_alt (re_str_ic U (ascii ''VS''))
       (re_seqs [re_str_ic U (ascii ''Variabiln''),
                 re_chr (\<lambda>x. lit_ic U 121 x \<or> lit_ic U 253 x),
                 re_str_ic U (ascii '' symbol'')]) st"
  by (simp add: label_re_def)

lemma vs_label_re_app:
  "vs_label_re U st =
     re_seqs [re_group 1 (label_re U), re_opt (re_chr (\<lambda>c. c = 58)),
              re_star (re_chr (is_space U)), re_group 2 (re_rep 1 10 (re_chr (is_digit U)))] st"
  by (simp add: vs_label_re_def)

lemma vs_plain_re_app:
  "vs_plain_re U st =
     re_seqs [re_bound U, re_group 1 (re_rep 10 10 (re_chr (is_digit U))), re_bound U] st"
  by (simp add: vs_plain_re_def)

lemmas re_eval = re_eps_app re_chr_Nil re_chr_Cons re_seq_app re_alt_app re_opt_app re_star_app
  re_rep_numeral re_group_app re_bound_app re_seqs_Nil re_seqs_Cons re_alts_Nil re_alts_Cons
  re_str_Nil re_str_Cons re_str_ic_Nil re_str_ic_Cons group_app group_str_def re_search_def
  iban_re_app iban_body_app digit09_Nil digit09_Cons number_re_app marker_re_app
  amount_marker_re_app marker_amount_re_app label_re_app vs_label_re_app vs_plain_re_app
  lit_ic_def pattern_cased_def pattern_lower_def sre_lower_def ignorecase_fixes_def
  is_digit_def is_space_def is_word_def digit_value_def is_ascii_digit_def is_ascii_upper_def
  is_ascii_lower_def ascii_def parse_iban_def parse_amount_str_def parse_amount_def
  parse_currency_def parse_vs_def parse_text_def py_float_def replace_char_def py_upper_def
  upper_char_def sublist_code

section \<open>Properties of the encoder\<close>

lemma show_nat_digits: "list_all is_ascii_digit (show_nat n)"
proof (induction n rule: show_nat.induct)
  case (1 n)
  show ?case
  proof (cases "n < 10")
    case True
    then show ?thesis by (simp add: show_nat.simps is_ascii_digit_def)
  next
    case False
    have "n mod 10 < 10" by simp
    then have "is_ascii_digit (48 + n mod 10)"
      unfolding is_ascii_digit_def by linarith
    with False 1 show ?thesis
      by (subst show_nat.simps) simp
  qed
qed

lemma show_nat_nonempty: "show_nat n \<noteq> []"
  by (subst show_nat.simps) simp

lemma format_2f_shape:
  assumes "0 \<le> x"
  shows "\<exists>ip d1 d2. format_2f x = ip @ ascii ''.'' @ [d1, d2] \<and> ip \<noteq> [] \<and>
           list_all is_ascii_digit (ip @ [d1, d2])"
proof -
  define n where "n = nat (round_half_even (\<bar>x\<bar> * 100))"
  have eq: "format_2f x = show_nat (n div 100) @ ascii ''.'' @ [48 + n div 10 mod 10, 48 + n mod 10]"
    using assms by (simp add: format_2f_def Let_def n_def)
  have "n div 10 mod 10 < 10" "n mod 10 < 10" by simp_all
  then have "is_ascii_digit (48 + n div 10 mod 10)" "is_ascii_digit (48 + n mod 10)"
    unfolding is_ascii_digit_def by linarith+
  with eq show_nat_digits [of "n div 100"] show_nat_nonempty [of "n div 100"]
  show ?thesis by (intro exI [of _ "show_nat (n div 100)"] exI [of _ "48 + n div 10 mod 10"]
        exI [of _ "48 + n mod 10"]) simp
qed

text \<open>
  Claim C1. For every identifier, amount, currency, reference and note, the encoder
  returns \<open>SPD*1.0*ACC:{id}*\<close> followed, in this order, by \<open>AM:{amount:.2f}*\<close> only if
  the amount is positive, \<open>CC:{currency}*\<close> only if the currency is non-empty,
  \<open>MSG:{NOTE}*\<close> (the note in upper case) only if the note is non-empty, and
  \<open>X-VS:{reference}*\<close> only if the reference is non-empty. A positive amount is printed
  as a non-empty run of digits, a dot and exactly two digits. The invoice of the
  specification gives
  \<open>SPD*1.0*ACC:CZ6508000000192000145399*AM:250.00*CC:CZK*MSG:INVOICE*X-VS:2023001*\<close>.
\<close>

theorem generate_qr_platba_format:
  "generate_qr_platba U iban amount currency vs msg =
     ascii ''SPD*1.0*ACC:'' @ iban @ ascii ''*'' @
     (if 0 < amount then ascii ''AM:'' @ format_2f amount @ ascii ''*'' else []) @
     (if currency \<noteq> [] then ascii ''CC:'' @ currency @ ascii ''*'' else []) @
     (if msg \<noteq> [] then ascii ''MSG:'' @ py_upper U msg @ ascii ''*'' else []) @
     (if vs \<noteq> [] then ascii ''X-VS:'' @ vs @ ascii ''*'' else [])
   \<and> (0 < amount \<longrightarrow>
        (\<exists>ip d1 d2. format_2f amount = ip @ ascii ''.'' @ [d1, d2] \<and> ip \<noteq> [] \<and>
           list_all is_ascii_digit (ip @ [d1, d2])))
   \<and> generate_qr_platba U (ascii ''CZ6508000000192000145399'') 250 (ascii ''CZK'')
        (ascii ''2023001'') (ascii ''invoice'') =
      ascii ''SPD*1.0*ACC:CZ6508000000192000145399*AM:250.00*CC:CZK*MSG:INVOICE*X-VS:2023001*''"
proof (intro conjI impI)
  show "generate_qr_platba U iban amount currency vs msg =
     ascii ''SPD*1.0*ACC:'' @ iban @ ascii ''*'' @
     (if 0 < amount then ascii ''AM:'' @ format_2f amount @ ascii ''*'' else []) @
     (if currency \<noteq> [] then ascii ''CC:'' @ currency @ ascii ''*'' else []) @
     (if msg \<noteq> [] then ascii ''MSG:'' @ py_upper U msg @ ascii ''*'' else []) @
     (if vs \<noteq> [] then ascii ''X-VS:'' @ vs @ ascii ''*'' else [])"
    by (simp add: generate_qr_platba_def Let_def)
next
  assume "0 < amount"
  then show "\<exists>ip d1 d2. format_2f amount = ip @ ascii ''.'' @ [d1, d2] \<and> ip \<noteq> [] \<and>
           list_all is_ascii_digit (ip @ [d1, d2])"
    using format_2f_shape [of amount] by simp
next
  show "generate_qr_platba U (ascii ''CZ6508000000192000145399'') 250 (ascii ''CZK'')
        (ascii ''2023001'') (ascii ''invoice'') =
      ascii ''SPD*1.0*ACC:CZ6508000000192000145399*AM:250.00*CC:CZK*MSG:INVOICE*X-VS:2023001*''"
    by (simp add: generate_qr_platba_def format_2f_def round_half_even_def Let_def
        show_nat.simps ascii_def py_upper_def upper_char_def is_ascii_lower_def)
qed

theorem generate_qr_platba_format_witness:
  "(0::rat) < 5 / 2 \<and>
   generate_qr_platba sample_tables (ascii ''CZ65'') (5 / 2) [] (ascii ''7'') []
     = ascii ''SPD*1.0*ACC:CZ65*AM:2.50*X-VS:7*'' \<and>
   (\<exists>ip d1 d2. format_2f (5 / 2) = ip @ ascii ''.'' @ [d1, d2] \<and> ip \<noteq> [] \<and>
           list_all is_ascii_digit (ip @ [d1, d2]))"
  using generate_qr_platba_format [of sample_tables "ascii ''CZ65''" "5 / 2" "[]" "ascii ''7''" "[]"]
  by (simp add: format_2f_def round_half_even_def Let_def show_nat.simps ascii_def)

text \<open>
  Claim C2. The encoder is a total function of its five arguments with no error result:
  for every input, the empty identifier, the zero amount and empty optional fields
  included, it returns a payload that begins with the header and the segment
  \<open>ACC:<identifier>*\<close>; absent optional fields are left out, so that with all of them
  absent the payload is the header and the \<open>ACC\<close> segment alone.
\<close>

theorem generate_qr_platba_total:
  "(\<exists>rest. generate_qr_platba U iban amount currency vs msg =
       ascii ''SPD*1.0*ACC:'' @ iban @ ascii ''*'' @ rest)
   \<and> generate_qr_platba U [] 0 [] [] [] = ascii ''SPD*1.0*ACC:*''
   \<and> (amount \<le> 0 \<and> currency = [] \<and> msg = [] \<and> vs = [] \<longrightarrow>
        generate_qr_platba U iban amount currency vs msg = ascii ''SPD*1.0*ACC:'' @ iban @ ascii ''*'')"
  by (simp add: generate_qr_platba_def Let_def ascii_def)

theorem generate_qr_platba_total_witness:
  "(-1::rat) \<le> 0 \<and>
   generate_qr_platba sample_tables (ascii ''SK12'') (-1) [] [] [] = ascii ''SPD*1.0*ACC:SK12*''"
  using generate_qr_platba_total [of sample_tables "ascii ''SK12''" "-1" "[]" "[]" "[]"]
  by (simp add: ascii_def)

section \<open>Properties of the extractor\<close>

text \<open>
  Claim C3. For every text the extractor returns an account identifier, which is the
  leftmost occurrence of \<open>SK\<close> or \<open>CZ\<close>, two digits and five groups of four digits,
  each group after at most one whitespace character, with the spaces (U+0020) removed,
  and the empty string when the text has no such occurrence. An identifier grouped by
  spaces and embedded in other text comes out as its 24 characters, prefix included. The
  pattern accepts any whitespace character between two groups but only spaces are
  removed: an identifier broken over two lines keeps its line feed (U+000A), so that the
  result has 25 characters and holds whitespace.
\<close>

theorem parse_text_iban_line_break:
  "(\<exists>r. parse_text U text = Inr r \<and> iban_spec U text (r_iban r))
   \<and> parse_text U (ascii ''IBAN SK31 1200 0000 1987 4263 7541'') =
       Inr \<lparr>r_iban = ascii ''SK3112000000198742637541'', r_amount = 0,
            r_currency = ascii ''EUR'', r_vs = Some []\<rparr>
   \<and> parse_text U (ascii ''IBAN SK31 1200 0000'' @ [10] @ ascii ''1987 4263 7541'') =
       Inr \<lparr>r_iban = ascii ''SK3112000000'' @ [10] @ ascii ''198742637541'', r_amount = 0,
            r_currency = ascii ''EUR'', r_vs = Some []\<rparr>"
proof (intro conjI)
  from parse_text_result [of U "text"]
  show "\<exists>r. parse_text U text = Inr r \<and> iban_spec U text (r_iban r)"
    by auto
qed (simp_all add: re_eval)

theorem parse_text_iban_line_break_witness:
  "iban_spec sample_tables (ascii ''IBAN: CZ65 0800 0000 1920 0014 5399, VS 1'')
     (ascii ''CZ6508000000192000145399'')"
  using parse_text_iban_line_break
    [of sample_tables "ascii ''IBAN: CZ65 0800 0000 1920 0014 5399, VS 1''"]
  by (simp add: re_eval sample_tables_def)

text \<open>
  Claim C4. For every text the extractor returns an amount, which is the number of the
  leftmost occurrence of a number (one to ten digits, a comma or a dot, two digits)
  followed, after at most one whitespace character, by a currency marker in any case;
  without such an occurrence, the number of the leftmost occurrence of a marker followed
  in the same way by a number; the number is read as a float after its comma is
  replaced by a dot; without either occurrence the amount is zero. \<open>Total 123,45 EUR\<close>
  gives the float of 123.45 and \<open>EUR 9,90\<close> the float of 9.90, the doubles nearest to
  these decimals.
\<close>

theorem parse_text_amount:
  "(\<exists>r. parse_text U text = Inr r \<and> amount_spec U text (r_amount r))
   \<and> (\<exists>r. parse_text U (ascii ''Total 123,45 EUR'') = Inr r \<and> r_amount r = binary64 (12345 / 100))
   \<and> (\<exists>r. parse_text U (ascii ''EUR 9,90'') = Inr r \<and> r_amount r = binary64 (990 / 100))
   \<and> binary64 (12345 / 100) = 8687021468732621 / 70368744177664
   \<and> binary64 (990 / 100) = 5573204538870989 / 562949953421312"
proof (intro conjI)
  from parse_text_result [of U "text"]
  show "\<exists>r. parse_text U text = Inr r \<and> amount_spec U text (r_amount r)"
    by auto
  show "binary64 (12345 / 100) = 8687021468732621 / 70368744177664" by code_simp
  show "binary64 (990 / 100) = 5573204538870989 / 562949953421312" by code_simp
qed (simp_all add: re_eval)

theorem parse_text_amount_witness:
  "amount_spec sample_tables (ascii ''Spolu: CZK 1250.00'') (binary64 (125000 / 100))"
  using parse_text_amount [of sample_tables "ascii ''Spolu: CZK 1250.00''"]
  by (simp add: re_eval sample_tables_def)

text \<open>
  Claim C5. For every text the currency of the result is \<open>CZK\<close> exactly when the text
  contains \<open>CZK\<close> or \<open>K\<close> followed by c with caron, in any case, or the extracted
  account identifier begins with \<open>CZ\<close>; otherwise it is \<open>EUR\<close>. The runtime's upper-case
  mapping is assumed to be as described for \<open>tables_upper_ok\<close>.
\<close>

theorem parse_text_currency:
  assumes "tables_upper_ok U"
  shows "\<exists>r. parse_text U text = Inr r \<and>
           r_currency r =
             (if ci_contains (ascii ''CZK'') text \<or> ci_contains (ascii ''K'' @ [268]) text
                 \<or> prefix (ascii ''CZ'') (r_iban r)
              then ascii ''CZK'' else ascii ''EUR'')"
proof -
  from parse_text_result [of U "text"] obtain s x v where
    "parse_text U text =
       Inr \<lparr>r_iban = s, r_amount = x, r_currency = parse_currency U text s, r_vs = Some v\<rparr>"
    by blast
  then show ?thesis
    by (simp add: parse_currency_spec [OF assms])
qed

theorem parse_text_currency_witness:
  "tables_upper_ok sample_tables
   \<and> ci_contains (ascii ''K'' @ [268]) (ascii ''12 k'' @ [269])
   \<and> (\<exists>r. parse_text sample_tables (ascii ''12 k'' @ [269]) = Inr r \<and> r_iban r = []
          \<and> r_currency r = ascii ''CZK'')"
proof -
  have ok: "tables_upper_ok sample_tables"
    by (simp add: tables_upper_ok_def sample_tables_def)
  have ci: "ci_contains (ascii ''K'' @ [268]) (ascii ''12 k'' @ [269])"
    unfolding ci_contains_def
    by (intro exI [of _ "ascii ''12 ''"] exI [of _ "ascii ''k'' @ [269]"] exI [of _ "[]"])
      (simp add: ascii_def same_letter_def is_ascii_upper_def)
  have ib: "parse_iban sample_tables (ascii ''12 k'' @ [269]) = Inr []"
    by (simp add: re_eval)
  from parse_text_currency [OF ok, of "ascii ''12 k'' @ [269]"] obtain r where
    r: "parse_text sample_tables (ascii ''12 k'' @ [269]) = Inr r"
    and c: "r_currency r =
      (if ci_contains (ascii ''CZK'') (ascii ''12 k'' @ [269])
          \<or> ci_contains (ascii ''K'' @ [268]) (ascii ''12 k'' @ [269])
          \<or> prefix (ascii ''CZ'') (r_iban r)
       then ascii ''CZK'' else ascii ''EUR'')"
    by blast
  from r ib have "r_iban r = []"
    by (auto simp: parse_text_def split: sum.splits)
  with ok ci r c show ?thesis by simp
qed

text \<open>
  Claim C6. For every text the extractor returns a reference, which is the run of digits,
  as many as there are up to ten, after the leftmost occurrence of a label (\<open>VS\<close> or
  \<open>Variabilny symbol\<close>, its \<open>y\<close> with or without the acute, in any case), an optional
  colon and whitespace; without a labelled reference, the leftmost run of exactly ten
  digits between word boundaries; without either, the empty string.
  \<open>VS: 0001234567 ...\<close> gives \<open>0001234567\<close>, and \<open>... 1234567890 ...\<close>, which has no
  label, gives \<open>1234567890\<close>.
\<close>

theorem parse_text_vs:
  "(\<exists>r v. parse_text U text = Inr r \<and> r_vs r = Some v \<and> vs_spec U text v)
   \<and> (\<exists>r. parse_text U (ascii ''VS: 0001234567 ...'') = Inr r
         \<and> r_vs r = Some (ascii ''0001234567''))
   \<and> (\<exists>r. parse_text U (ascii ''... 1234567890 ...'') = Inr r
         \<and> r_vs r = Some (ascii ''1234567890''))"
proof (intro conjI)
  from parse_text_result [of U "text"]
  show "\<exists>r v. parse_text U text = Inr r \<and> r_vs r = Some v \<and> vs_spec U text v"
    by auto
qed (simp_all add: re_eval)

theorem parse_text_vs_witness:
  "vs_spec sample_tables (ascii ''Faktura 7, variabilny symbol 20240017.'') (ascii ''20240017'')"
  using parse_text_vs [of sample_tables "ascii ''Faktura 7, variabilny symbol 20240017.''"]
  by (simp add: re_eval sample_tables_def)

text \<open>
  Claim C7. Extraction is total: for every text \<open>parse_text\<close> returns a result and
  raises no error. In the result the amount is at least zero, the currency is \<open>EUR\<close> or
  \<open>CZK\<close>, and the reference is a string of digits, possibly empty. A field whose
  pattern does not occur in the text has its default: the empty identifier, the amount
  zero, the empty reference, and the currency \<open>EUR\<close> when the upper-cased text holds
  neither currency name and the identifier does not begin with \<open>CZ\<close>. The empty text
  gives the four defaults.
\<close>

theorem parse_text_total:
  "(\<exists>r v. parse_text U text = Inr r
      \<and> 0 \<le> r_amount r
      \<and> (r_currency r = ascii ''EUR'' \<or> r_currency r = ascii ''CZK'')
      \<and> r_vs r = Some v \<and> list_all (is_digit U) v
      \<and> ((\<forall>pre w. \<not> iban_at U text pre w) \<longrightarrow> r_iban r = [])
      \<and> ((\<forall>pre num. \<not> amount_before_marker U text pre num)
           \<and> (\<forall>pre num. \<not> marker_before_amount U text pre num) \<longrightarrow> r_amount r = 0)
      \<and> ((\<forall>pre ds post. \<not> labelled_digits U text pre ds post)
           \<and> (\<forall>pre ds. \<not> standalone_digits U text pre ds) \<longrightarrow> v = [])
      \<and> (\<not> sublist (ascii ''CZK'') (py_upper U text)
           \<and> \<not> sublist (ascii ''K'' @ [268]) (py_upper U text)
           \<and> \<not> prefix (ascii ''CZ'') (r_iban r) \<longrightarrow> r_currency r = ascii ''EUR''))
   \<and> parse_text U [] =
       Inr \<lparr>r_iban = [], r_amount = 0, r_currency = ascii ''EUR'', r_vs = Some []\<rparr>"
proof (intro conjI)
  from parse_text_result [of U "text"] obtain s x v where
    r: "parse_text U text =
       Inr \<lparr>r_iban = s, r_amount = x, r_currency = parse_currency U text s, r_vs = Some v\<rparr>"
    and s: "iban_spec U text s" and x: "0 \<le> x" "amount_spec U text x" and v: "vs_spec U text v"
    by blast
  have c: "parse_currency U text s = ascii ''EUR'' \<or> parse_currency U text s = ascii ''CZK''"
    by (simp add: parse_currency_def)
  have d: "list_all (is_digit U) v"
    using v by (rule vs_spec_digits)
  have i0: "(\<forall>pre w. \<not> iban_at U text pre w) \<longrightarrow> s = []"
    using s by (simp add: iban_spec_def)
  have a0: "(\<forall>pre num. \<not> amount_before_marker U text pre num)
           \<and> (\<forall>pre num. \<not> marker_before_amount U text pre num) \<longrightarrow> x = 0"
    using x(2) by (simp add: amount_spec_def)
  have v0: "(\<forall>pre ds post. \<not> labelled_digits U text pre ds post)
           \<and> (\<forall>pre ds. \<not> standalone_digits U text pre ds) \<longrightarrow> v = []"
    using v by (simp add: vs_spec_def)
  have c0: "\<not> sublist (ascii ''CZK'') (py_upper U text)
           \<and> \<not> sublist (ascii ''K'' @ [268]) (py_upper U text)
           \<and> \<not> prefix (ascii ''CZ'') s \<longrightarrow> parse_currency U text s = ascii ''EUR''"
    by (simp add: parse_currency_def)
  show "\<exists>r v. parse_text U text = Inr r
      \<and> 0 \<le> r_amount r
      \<and> (r_currency r = ascii ''EUR'' \<or> r_currency r = ascii ''CZK'')
      \<and> r_vs r = Some v \<and> list_all (is_digit U) v
      \<and> ((\<forall>pre w. \<not> iban_at U text pre w) \<longrightarrow> r_iban r = [])
      \<and> ((\<forall>pre num. \<not> amount_before_marker U text pre num)
           \<and> (\<forall>pre num. \<not> marker_before_amount U text pre num) \<longrightarrow> r_amount r = 0)
      \<and> ((\<forall>pre ds post. \<not> labelled_digits U text pre ds post)
           \<and> (\<forall>pre ds. \<not> standalone_digits U text pre ds) \<longrightarrow> v = [])
      \<and> (\<not> sublist (ascii ''CZK'') (py_upper U text)
           \<and> \<not> sublist (ascii ''K'' @ [268]) (py_upper U text)
           \<and> \<not> prefix (ascii ''CZ'') (r_iban r) \<longrightarrow> r_currency r = ascii ''EUR'')"
    apply (rule exI [of _ "\<lparr>r_iban = s, r_amount = x, r_currency = parse_currency U text s, r_vs = Some v\<rparr>"])
    apply (rule exI [of _ v])
    using r x(1) c d i0 a0 v0 c0 apply simp
    done
next
  show "parse_text U [] =
       Inr \<lparr>r_iban = [], r_amount = 0, r_currency = ascii ''EUR'', r_vs = Some []\<rparr>"
    by (simp add: re_eval)
qed

theorem parse_text_total_witness:
  "(\<forall>pre w. \<not> iban_at sample_tables (ascii ''Dakujeme za nakup 2024'') pre w)
   \<and> (\<forall>pre num. \<not> amount_before_marker sample_tables (ascii ''Dakujeme za nakup 2024'') pre num)
   \<and> (\<forall>pre num. \<not> marker_before_amount sample_tables (ascii ''Dakujeme za nakup 2024'') pre num)
   \<and> (\<forall>pre ds post. \<not> labelled_digits sample_tables (ascii ''Dakujeme za nakup 2024'') pre ds post)
   \<and> (\<forall>pre ds. \<not> standalone_digits sample_tables (ascii ''Dakujeme za nakup 2024'') pre ds)
   \<and> \<not> sublist (ascii ''CZK'') (py_upper sample_tables (ascii ''Dakujeme za nakup 2024''))
   \<and> \<not> sublist (ascii ''K'' @ [268]) (py_upper sample_tables (ascii ''Dakujeme za nakup 2024''))
   \<and> (\<exists>r. parse_text sample_tables (ascii ''Dakujeme za nakup 2024'') = Inr r
         \<and> r_iban r = [] \<and> r_amount r = 0 \<and> r_currency r = ascii ''EUR'' \<and> r_vs r = Some [])"
proof -
  let ?t = "ascii ''Dakujeme za nakup 2024''"
  have h1: "\<forall>pre w. \<not> iban_at sample_tables ?t pre w"
    unfolding iban_None [symmetric] by (simp add: re_eval)
  have h2: "\<forall>pre num. \<not> amount_before_marker sample_tables ?t pre num"
    unfolding search1_None [symmetric] by (simp add: re_eval sample_tables_def)
  have h3: "\<forall>pre num. \<not> marker_before_amount sample_tables ?t pre num"
    unfolding search2_None [symmetric] by (simp add: re_eval sample_tables_def)
  have h4: "\<forall>pre ds post. \<not> labelled_digits sample_tables ?t pre ds post"
    unfolding vs_label_None [symmetric] by (simp add: re_eval sample_tables_def)
  have h5: "\<forall>pre ds. \<not> standalone_digits sample_tables ?t pre ds"
    unfolding vs_plain_None [symmetric] by (simp add: re_eval sample_tables_def)
  have h6: "\<not> sublist (ascii ''CZK'') (py_upper sample_tables ?t)"
    "\<not> sublist (ascii ''K'' @ [268]) (py_upper sample_tables ?t)"
    by (simp_all add: re_eval sample_tables_def)
  from parse_text_total [of sample_tables ?t] obtain r v where
    r: "parse_text sample_tables ?t = Inr r" "r_vs r = Some v"
    and i: "(\<forall>pre w. \<not> iban_at sample_tables ?t pre w) \<longrightarrow> r_iban r = []"
    and a: "(\<forall>pre num. \<not> amount_before_marker sample_tables ?t pre num)
           \<and> (\<forall>pre num. \<not> marker_before_amount sample_tables ?t pre num) \<longrightarrow> r_amount r = 0"
    and w: "(\<forall>pre ds post. \<not> labelled_digits sample_tables ?t pre ds post)
           \<and> (\<forall>pre ds. \<not> standalone_digits sample_tables ?t pre ds) \<longrightarrow> v = []"
    and c: "\<not> sublist (ascii ''CZK'') (py_upper sample_tables ?t)
           \<and> \<not> sublist (ascii ''K'' @ [268]) (py_upper sample_tables ?t)
           \<and> \<not> prefix (ascii ''CZ'') (r_iban r) \<longrightarrow> r_currency r = ascii ''EUR''"
    by blast
  from i h1 have ri: "r_iban r = []" by blast
  from a h2 h3 have ra: "r_amount r = 0" by blast
  from w h4 h5 have rv: "v = []" by blast
  from c h6 ri have rc: "r_currency r = ascii ''EUR''" by (simp add: ascii_def)
  from h1 h2 h3 h4 h5 h6 r ri ra rv rc show ?thesis by simp
qed

text \<open>
  Claim C10. When the leftmost labelled reference of a text is a label, an optional
  colon and whitespace followed by a run of more than ten digits, the extractor does not
  reject the match: its reference is the first ten digits of the run, whatever follows.
  The first digit of the run is taken not to be a whitespace character as well, which
  the parameter tables would allow and Unicode excludes.
  \<open>VS: 123456789012\<close> gives \<open>1234567890\<close>.
\<close>

theorem parse_text_vs_long_run:
  assumes "text = pre @ lab @ col @ ws @ ds @ post"
    and "\<forall>pre' ds' post'. labelled_digits U text pre' ds' post' \<longrightarrow> length pre \<le> length pre'"
    and "label_word U lab" "colon_word col" "list_all (is_space U) ws"
    and "list_all (is_digit U) ds" "10 < length ds" "\<not> is_space U (hd ds)"
  shows "(\<exists>r. parse_text U text = Inr r \<and> r_vs r = Some (take 10 ds))
     \<and> (\<exists>r. parse_text U (ascii ''VS: 123456789012'') = Inr r
           \<and> r_vs r = Some (ascii ''1234567890''))"
proof (intro conjI)
  from parse_text_result [of U "text"] labelled_run [OF assms]
  show "\<exists>r. parse_text U text = Inr r \<and> r_vs r = Some (take 10 ds)"
    by (auto simp: parse_text_def split: sum.splits)
next
  show "\<exists>r. parse_text U (ascii ''VS: 123456789012'') = Inr r
           \<and> r_vs r = Some (ascii ''1234567890'')"
    by (simp add: re_eval)
qed

theorem parse_text_vs_long_run_witness:
  "\<exists>r. parse_text sample_tables (ascii ''Ref. Variabilny symbol:  20240000123456 Kc'') = Inr r
       \<and> r_vs r = Some (ascii ''2024000012'')"
proof -
  let ?t = "ascii ''Ref. Variabilny symbol:  20240000123456 Kc''"
  have t: "?t = ascii ''Ref. '' @ ascii ''Variabilny symbol'' @ [58] @ ascii ''  '' @
      ascii ''20240000123456'' @ ascii '' Kc''"
    by (simp add: ascii_def)
  have "list_all (\<lambda>c. \<not> lit_ic sample_tables 86 c) (ascii ''Ref. '')"
    by (simp add: ascii_def lit_ic_def pattern_cased_def pattern_lower_def sre_lower_def
        ignorecase_fixes_def is_ascii_upper_def is_ascii_lower_def)
  then have leftmost: "\<forall>pre' ds' post'. labelled_digits sample_tables ?t pre' ds' post'
      \<longrightarrow> length (ascii ''Ref. '') \<le> length pre'"
    using t by (blast intro: no_label_before)
  have w: "label_word sample_tables (ascii ''Variabilny symbol'')" "colon_word [58]"
    "list_all (is_space sample_tables) (ascii ''  '')"
    "list_all (is_digit sample_tables) (ascii ''20240000123456'')"
    "10 < length (ascii ''20240000123456'')"
    "\<not> is_space sample_tables (hd (ascii ''20240000123456''))"
    by (simp_all add: ascii_def label_word_def colon_word_def lit_ic_def pattern_cased_def
        pattern_lower_def sre_lower_def ignorecase_fixes_def is_space_def is_digit_def
        digit_value_def is_ascii_digit_def is_ascii_upper_def is_ascii_lower_def)
  from parse_text_vs_long_run [OF t leftmost w]
  show ?thesis by (simp add: ascii_def)
qed

section \<open>Properties of the payment form\<close>

lemma generate_qr_platba_nonempty: "generate_qr_platba U iban amount currency vs msg \<noteq> []"
  by (simp add: generate_qr_platba_def Let_def ascii_def)

text \<open>
  Claim C8. For every non-empty identifier the form calls the encoder of the chosen
  region, whatever the prefix of the identifier. With the Czech invoice chosen it shows
  a warning exactly when the identifier does not begin with \<open>CZ\<close>, then calls the QR
  Platba encoder, and ends with the image of the payload and the success message; the
  payload is the encoder's and is not empty. With the Slovak invoice chosen it shows a
  warning exactly when the identifier does not begin with \<open>SK\<close>, and calls PAY by
  square, whose payload is the result.
\<close>

theorem payment_form_submit_dispatch:
  assumes "iban \<noteq> []"
  shows "payment_form_submit gen U Czech_invoice iban amount currency vs msg =
           ((if \<not> prefix (ascii ''CZ'') iban then [St_warning Iban_not_czech] else []) @
            [St_info Generating_qr_platba, Call Qr_platba,
             St_image (generate_qr_platba U iban amount currency vs msg),
             St_success Qr_generated],
            Some (generate_qr_platba U iban amount currency vs msg))
     \<and> generate_qr_platba U iban amount currency vs msg \<noteq> []
     \<and> payment_form_submit gen U Slovak_invoice iban amount currency vs msg =
           ((if \<not> prefix (ascii ''SK'') iban then [St_warning Iban_not_slovak] else []) @
            [St_info Generating_pay_by_square, Call Pay_by_square] @
            (case gen iban amount currency vs msg of
               None \<Rightarrow> [St_error Pay_by_square_failed, St_error Qr_not_generated]
             | Some s \<Rightarrow> if s \<noteq> [] then [St_image s, St_success Qr_generated]
                         else [St_error Qr_not_generated]),
            gen iban amount currency vs msg)"
proof (intro conjI)
  show "generate_qr_platba U iban amount currency vs msg \<noteq> []"
    by (rule generate_qr_platba_nonempty)
  then show "payment_form_submit gen U Czech_invoice iban amount currency vs msg =
           ((if \<not> prefix (ascii ''CZ'') iban then [St_warning Iban_not_czech] else []) @
            [St_info Generating_qr_platba, Call Qr_platba,
             St_image (generate_qr_platba U iban amount currency vs msg),
             St_success Qr_generated],
            Some (generate_qr_platba U iban amount currency vs msg))"
    using assms by (simp add: payment_form_submit_def)
  show "payment_form_submit gen U Slovak_invoice iban amount currency vs msg =
           ((if \<not> prefix (ascii ''SK'') iban then [St_warning Iban_not_slovak] else []) @
            [St_info Generating_pay_by_square, Call Pay_by_square] @
            (case gen iban amount currency vs msg of
               None \<Rightarrow> [St_error Pay_by_square_failed, St_error Qr_not_generated]
             | Some s \<Rightarrow> if s \<noteq> [] then [St_image s, St_success Qr_generated]
                         else [St_error Qr_not_generated]),
            gen iban amount currency vs msg)"
    using assms
    by (simp add: payment_form_submit_def generate_pay_by_square_def split: option.split)
qed

theorem payment_form_submit_dispatch_witness:
  "ascii ''SK12'' \<noteq> []
   \<and> payment_form_submit (\<lambda>i a c v m. None) sample_tables Czech_invoice (ascii ''SK12'') 0
        (ascii ''EUR'') [] [] =
       ([St_warning Iban_not_czech, St_info Generating_qr_platba, Call Qr_platba,
         St_image (ascii ''SPD*1.0*ACC:SK12*CC:EUR*''), St_success Qr_generated],
        Some (ascii ''SPD*1.0*ACC:SK12*CC:EUR*''))
   \<and> payment_form_submit (\<lambda>i a c v m. Some (ascii ''0004'' @ i)) sample_tables Slovak_invoice
        (ascii ''CZ65'') 0 (ascii ''EUR'') [] [] =
       ([St_warning Iban_not_slovak, St_info Generating_pay_by_square, Call Pay_by_square,
         St_image (ascii ''0004CZ65''), St_success Qr_generated],
        Some (ascii ''0004CZ65''))"
proof -
  have ne: "ascii ''SK12'' \<noteq> []" "ascii ''CZ65'' \<noteq> []"
    by (simp_all add: ascii_def)
  have q: "generate_qr_platba sample_tables (ascii ''SK12'') 0 (ascii ''EUR'') [] [] =
      ascii ''SPD*1.0*ACC:SK12*CC:EUR*''"
    by (simp add: generate_qr_platba_def Let_def ascii_def)
  from payment_form_submit_dispatch [OF ne(1), of "\<lambda>i a c v m. None" sample_tables 0
      "ascii ''EUR''" "[]" "[]"]
    payment_form_submit_dispatch [OF ne(2), of "\<lambda>i a c v m. Some (ascii ''0004'' @ i)"
      sample_tables 0 "ascii ''EUR''" "[]" "[]"]
  show ?thesis
    unfolding q by (simp add: ascii_def)
qed

text \<open>
  Claim C9. A submission with an empty account identifier is blocked for both regions:
  the form reports that the identifier is required and nothing else, calls no encoder
  and produces no payload.
\<close>

theorem payment_form_submit_empty_iban:
  "payment_form_submit gen U country [] amount currency vs msg = ([St_error Iban_required], None)
   \<and> (\<forall>e. Call e \<notin> set (fst (payment_form_submit gen U country [] amount currency vs msg)))"
  by (simp add: payment_form_submit_def)

theorem payment_form_submit_empty_iban_witness:
  "payment_form_submit (\<lambda>i a c v m. Some (ascii ''0004'')) sample_tables Slovak_invoice []
      (25 / 2) (ascii ''EUR'') (ascii ''2023001'') [] = ([St_error Iban_required], None)
   \<and> payment_form_submit (\<lambda>i a c v m. Some (ascii ''0004'')) sample_tables Czech_invoice []
      (25 / 2) (ascii ''CZK'') (ascii ''2023001'') [] = ([St_error Iban_required], None)"
  using payment_form_submit_empty_iban [of "\<lambda>i a c v m. Some (ascii ''0004'')" sample_tables
      Slovak_invoice "25 / 2" "ascii ''EUR''" "ascii ''2023001''" "[]"]
    payment_form_submit_empty_iban [of "\<lambda>i a c v m. Some (ascii ''0004'')" sample_tables
      Czech_invoice "25 / 2" "ascii ''CZK''" "ascii ''2023001''" "[]"]
  by simp

end
